theory Spec2Isabelle
  imports Main
begin

section \<open>Silent Charges: data model\<close>

text \<open>
  The game keeps cells as objects \<open>{x, y}\<close> of class \<open>Vec\<close>; coordinates are integers.
  Wherever the source builds a string key \<open>x,y\<close> for a \<open>Map\<close> or \<open>Set\<close>, the model
  uses the cell itself (the key is injective on integer pairs).
\<close>

datatype Vec = Vec (vx: int) (vy: int)

definition Vec_equals :: "Vec \<Rightarrow> Vec \<Rightarrow> bool" where
  "Vec_equals a b = (vx a = vx b \<and> vy a = vy b)"

definition manhattanDistance :: "Vec \<Rightarrow> Vec \<Rightarrow> nat" where
  "manhattanDistance a b = nat \<bar>vx a - vx b\<bar> + nat \<bar>vy a - vy b\<bar>"

datatype Tile = FLOOR | WALL | VOID

datatype BombState = TICKING | EXPLODING

datatype GameState = PLAYING | WON | LOST

text \<open>What a JavaScript statement throws when it reads a property of \<open>undefined\<close>.\<close>

datatype error = TypeError

definition MAX_GRID_SIZE :: int where
  "MAX_GRID_SIZE = 64"

text \<open>
  The configuration bundle of a level. \<open>maxActiveBombs\<close> and \<open>timersAllowed\<close> are not keys
  of \<open>DEFAULT_CONFIG\<close>: read from a level whose descriptor omits them they are
  \<open>undefined\<close>, which is \<open>None\<close> for the number and falsy for the flag.
\<close>

record Config =
  gridSize :: int
  blastRange :: int
  defaultHearingRadius :: int
  memoryTTL :: int
  maxBombsPerTurn :: int
  maxActiveBombs :: "int option"
  timersAllowed :: bool

definition DEFAULT_CONFIG :: Config where
  "DEFAULT_CONFIG = \<lparr> gridSize = 32, blastRange = 3, defaultHearingRadius = 8,
     memoryTTL = 8, maxBombsPerTurn = 1, maxActiveBombs = None, timersAllowed = False \<rparr>"

text \<open>The \<open>config\<close> object of a level descriptor: every key may be absent.\<close>

record ConfigData =
  cd_gridSize :: "int option"
  cd_blastRange :: "int option"
  cd_defaultHearingRadius :: "int option"
  cd_memoryTTL :: "int option"
  cd_maxBombsPerTurn :: "int option"
  cd_maxActiveBombs :: "int option"
  cd_timersAllowed :: "bool option"

record GuardData =
  gd_x :: int
  gd_y :: int
  gd_hearingRadius :: "int option"

record TargetData =
  td_x :: int
  td_y :: int

text \<open>
  A level descriptor in the grid format. A key that the descriptor does not have
  (\<open>undefined\<close> when read) is \<open>None\<close>.
\<close>

record LevelData =
  ld_config :: "ConfigData option"
  ld_grid :: "Tile list list option"
  ld_targets :: "TargetData list option"
  ld_guards :: "GuardData list option"

record Target =
  t_id :: nat
  t_pos :: Vec
  t_destroyed :: bool

record Guard =
  g_id :: nat
  g_pos :: Vec
  g_hearingRadius :: int
  g_memory :: "(Vec \<times> int) option"
  g_targetPos :: "Vec option"

record Bomb =
  b_id :: nat
  b_pos :: Vec
  b_hasTimer :: bool
  b_timer :: int
  b_state :: BombState
  b_turnPlaced :: int

record Level =
  config :: Config
  grid :: "Tile list list"
  targets :: "Target list"
  guards :: "Guard list"

record Game =
  level :: Level
  bombs :: "Bomb list"
  turnIndex :: int
  gameState :: GameState
  bombIdCounter :: nat

section \<open>Loading a level\<close>

text \<open>JavaScript's \<open>a || b\<close> on a number that may be absent: \<open>undefined\<close> and \<open>0\<close> are falsy.\<close>

definition or_default :: "int option \<Rightarrow> int \<Rightarrow> int" where
  "or_default a b = (case a of None \<Rightarrow> b | Some v \<Rightarrow> if v = 0 then b else v)"

text \<open>The object spread \<open>{ ...DEFAULT_CONFIG, ...levelData.config }\<close>.\<close>

definition override :: "'a \<Rightarrow> 'a option \<Rightarrow> 'a" where
  "override d v = (case v of None \<Rightarrow> d | Some w \<Rightarrow> w)"

definition mergeConfig :: "ConfigData option \<Rightarrow> Config" where
  "mergeConfig c = (case c of
      None \<Rightarrow> DEFAULT_CONFIG
    | Some d \<Rightarrow> \<lparr> gridSize = override (gridSize DEFAULT_CONFIG) (cd_gridSize d),
        blastRange = override (blastRange DEFAULT_CONFIG) (cd_blastRange d),
        defaultHearingRadius = override (defaultHearingRadius DEFAULT_CONFIG) (cd_defaultHearingRadius d),
        memoryTTL = override (memoryTTL DEFAULT_CONFIG) (cd_memoryTTL d),
        maxBombsPerTurn = override (maxBombsPerTurn DEFAULT_CONFIG) (cd_maxBombsPerTurn d),
        maxActiveBombs = cd_maxActiveBombs d,
        timersAllowed = override False (cd_timersAllowed d) \<rparr>)"

definition createEmptyGrid :: "Config \<Rightarrow> Tile list list" where
  "createEmptyGrid c =
     (let n = nat (min (or_default (Some (gridSize c)) (gridSize DEFAULT_CONFIG)) MAX_GRID_SIZE)
      in replicate n (replicate n VOID))"

text \<open>
  The inner copy loop \<open>for x < bound: this.grid[y][x] = levelData.grid[y][x]\<close>. An
  assignment one past the end of a JavaScript array appends to it.
\<close>

definition copyRow :: "Tile list \<Rightarrow> nat \<Rightarrow> Tile list \<Rightarrow> Tile list" where
  "copyRow src n row =
     fold (\<lambda>x r. if x < length r then r[x := src ! x] else r @ [src ! x]) [0..<n] row"

text \<open>
  The outer copy loop. Row \<open>y\<close> of the level's own grid does not exist when
  \<open>y \<ge> MAX_GRID_SIZE\<close>; the first assignment into it throws.
\<close>

definition copyGridStep :: "Tile list list \<Rightarrow> int \<Rightarrow> nat \<Rightarrow> error + Tile list list \<Rightarrow> error + Tile list list" where
  "copyGridStep src gsz y acc =
     (case acc of
        Inl e \<Rightarrow> Inl e
      | Inr g \<Rightarrow>
          (let n = nat (min (int (length (src ! y))) gsz) in
           if n = 0 then Inr g
           else if y < length g then Inr (g[y := copyRow (src ! y) n (g ! y)])
           else Inl TypeError))"

definition copyGrid :: "Tile list list \<Rightarrow> int \<Rightarrow> Tile list list \<Rightarrow> error + Tile list list" where
  "copyGrid src gsz g0 =
     fold (copyGridStep src gsz) [0..<nat (min (int (length src)) gsz)] (Inr g0)"

definition newTarget :: "nat \<Rightarrow> TargetData \<Rightarrow> Target" where
  "newTarget i d = \<lparr> t_id = i, t_pos = Vec (td_x d) (td_y d), t_destroyed = False \<rparr>"

definition newGuard :: "Config \<Rightarrow> nat \<Rightarrow> GuardData \<Rightarrow> Guard" where
  "newGuard c i d = \<lparr> g_id = i, g_pos = Vec (gd_x d) (gd_y d),
     g_hearingRadius = or_default (gd_hearingRadius d) (defaultHearingRadius c),
     g_memory = None, g_targetPos = None \<rparr>"

text \<open>
  \<open>forEach((data, index) => ...)\<close>: the entities are numbered by their index in the array.
\<close>

definition indexed :: "(nat \<Rightarrow> 'a \<Rightarrow> 'b) \<Rightarrow> 'a list \<Rightarrow> 'b list" where
  "indexed f xs = map (\<lambda>(i, d). f i d) (zip [0..<length xs] xs)"

text \<open>
  The constructor of \<open>Level\<close> with \<open>initializeFromData\<close>: merge the configuration, build
  the all-Void grid, copy the descriptor's grid into it, then add targets and guards.
  \<open>levelData.targets.forEach\<close> and \<open>levelData.guards.forEach\<close> throw when the array is
  absent. Nothing in it compares an entity's position with the grid.
\<close>

definition newLevel :: "LevelData \<Rightarrow> error + Level" where
  "newLevel d =
     (let c = mergeConfig (ld_config d);
          g0 = createEmptyGrid c;
          gr = (case ld_grid d of None \<Rightarrow> Inr g0 | Some src \<Rightarrow> copyGrid src (gridSize c) g0)
      in case gr of
           Inl e \<Rightarrow> Inl e
         | Inr g \<Rightarrow>
            (case ld_targets d of
               None \<Rightarrow> Inl TypeError
             | Some ts \<Rightarrow>
                (case ld_guards d of
                   None \<Rightarrow> Inl TypeError
                 | Some gs \<Rightarrow>
                     Inr \<lparr> config = c, grid = g, targets = indexed newTarget ts,
                           guards = indexed (newGuard c) gs \<rparr>)))"

definition loadLevel :: "LevelData \<Rightarrow> error + Game" where
  "loadLevel d = (case newLevel d of
      Inl e \<Rightarrow> Inl e
    | Inr l \<Rightarrow> Inr \<lparr> level = l, bombs = [], turnIndex = 0, gameState = PLAYING,
                     bombIdCounter = 0 \<rparr>)"

section \<open>Grid queries\<close>

definition isValidPosition :: "Level \<Rightarrow> Vec \<Rightarrow> bool" where
  "isValidPosition l p =
     (vx p \<ge> 0 \<and> vx p < gridSize (config l) \<and> vy p \<ge> 0 \<and> vy p < gridSize (config l))"

text \<open>
  The read \<open>this.grid[pos.y][pos.x]\<close> at a valid position. A column past the end of the
  row reads \<open>undefined\<close> (\<open>None\<close>), which equals no tile. A row past the end of the grid
  would throw; \<open>level_ok\<close> says that every valid position has its row, as it has in every
  level loaded with \<open>gridSize \<le> MAX_GRID_SIZE\<close>.
\<close>

definition tileAt :: "Level \<Rightarrow> Vec \<Rightarrow> Tile option" where
  "tileAt l p =
     (if nat (vy p) < length (grid l) \<and> nat (vx p) < length (grid l ! nat (vy p))
      then Some (grid l ! nat (vy p) ! nat (vx p)) else None)"

definition level_ok :: "Level \<Rightarrow> bool" where
  "level_ok l = (nat (gridSize (config l)) \<le> length (grid l))"

definition isPassable :: "Level \<Rightarrow> Vec \<Rightarrow> bool" where
  "isPassable l p = (if \<not> isValidPosition l p then False else tileAt l p = Some FLOOR)"

definition isOccupiedByTarget :: "Level \<Rightarrow> Vec \<Rightarrow> bool" where
  "isOccupiedByTarget l p = list_ex (\<lambda>t. \<not> t_destroyed t \<and> Vec_equals (t_pos t) p) (targets l)"

definition isOccupiedByGuard :: "Level \<Rightarrow> Vec \<Rightarrow> bool" where
  "isOccupiedByGuard l p = list_ex (\<lambda>g. Vec_equals (g_pos g) p) (guards l)"

definition canPlaceBomb :: "Level \<Rightarrow> Vec \<Rightarrow> bool" where
  "canPlaceBomb l p =
     (if \<not> isValidPosition l p then False
      else if tileAt l p \<noteq> Some FLOOR then False
      else if isOccupiedByTarget l p then False
      else if isOccupiedByGuard l p then False
      else True)"

section \<open>Placing a bomb\<close>

text \<open>The constructor of \<open>Bomb\<close>, followed by the assignment of \<open>turnPlaced\<close>.\<close>

definition newBomb :: "nat \<Rightarrow> Vec \<Rightarrow> bool \<Rightarrow> int \<Rightarrow> Bomb" where
  "newBomb i p hasTimer turn = \<lparr> b_id = i, b_pos = p, b_hasTimer = hasTimer,
     b_timer = (if hasTimer then 3 else 1), b_state = TICKING, b_turnPlaced = turn \<rparr>"

text \<open>\<open>n >= cap\<close> where \<open>cap\<close> may be \<open>undefined\<close>: a comparison with \<open>undefined\<close> is false.\<close>

definition ge_maybe :: "int \<Rightarrow> int option \<Rightarrow> bool" where
  "ge_maybe n cap = (case cap of None \<Rightarrow> False | Some c \<Rightarrow> n \<ge> c)"

definition bombsThisTurn :: "Game \<Rightarrow> nat" where
  "bombsThisTurn s = length (filter (\<lambda>b. b_turnPlaced b = turnIndex s) (bombs s))"

text \<open>\<open>placeBomb\<close> returns the flag and the state after the call.\<close>

definition placeBomb :: "Game \<Rightarrow> Vec \<Rightarrow> bool \<times> Game" where
  "placeBomb s p =
     (if \<not> canPlaceBomb (level s) p then (False, s)
      else if ge_maybe (int (length (bombs s))) (maxActiveBombs (config (level s))) then (False, s)
      else if int (bombsThisTurn s) \<ge> maxBombsPerTurn (config (level s)) then (False, s)
      else (True, s\<lparr> bombs := bombs s @ [newBomb (bombIdCounter s) p
                                           (timersAllowed (config (level s))) (turnIndex s)],
                     bombIdCounter := Suc (bombIdCounter s) \<rparr>))"

section \<open>Blast geometry\<close>

text \<open>
  \<open>Math.sqrt(dx*dx + dy*dy) <= radius\<close> on integers: the square root of an integer
  is at most the integer \<open>radius\<close> exactly when \<open>radius\<close> is not negative and the sum
  of squares is at most its square.
\<close>

definition withinRadius :: "int \<Rightarrow> int \<Rightarrow> int \<Rightarrow> bool" where
  "withinRadius dx dy r = (0 \<le> r \<and> dx * dx + dy * dy \<le> r * r)"

text \<open>
  \<open>Math.round(start + (d / steps) * i)\<close> for \<open>0 < i < steps\<close>: the nearest integer, a
  half rounded up. In exact arithmetic this is \<open>start + (2 * d * i + steps) div
  (2 * steps)\<close>; the double computation of the source gives the same integer for every
  \<open>steps \<le> 21\<close>, which covers every \<open>blastRange\<close> up to 22.
\<close>

definition roundStep :: "int \<Rightarrow> int \<Rightarrow> int \<Rightarrow> int \<Rightarrow> int" where
  "roundStep start d steps i = start + (2 * d * i + steps) div (2 * steps)"

definition hasLineOfSight :: "Level \<Rightarrow> Vec \<Rightarrow> Vec \<Rightarrow> bool" where
  "hasLineOfSight l start end =
     (let dx = vx end - vx start; dy = vy end - vy start in
      if dx = 0 \<and> dy = 0 then True
      else
        (let steps = max \<bar>dx\<bar> \<bar>dy\<bar> in
         list_all (\<lambda>i. let checkPos = Vec (roundStep (vx start) dx steps i)
                                            (roundStep (vy start) dy steps i)
                        in \<not> (isValidPosition l checkPos \<and> tileAt l checkPos = Some WALL))
                  [1..steps - 1]))"

definition calculateCircularBlast :: "Level \<Rightarrow> Vec \<Rightarrow> int \<Rightarrow> Vec list" where
  "calculateCircularBlast l bombPos radius =
     concat (map (\<lambda>x. filter (\<lambda>pos. withinRadius (x - vx bombPos) (vy pos - vy bombPos) radius
                                    \<and> isValidPosition l pos \<and> hasLineOfSight l bombPos pos)
                          (map (Vec x) [vy bombPos - radius..vy bombPos + radius]))
                 [vx bombPos - radius..vx bombPos + radius])"

definition calculateBlastTiles :: "Level \<Rightarrow> Vec \<Rightarrow> Vec list" where
  "calculateBlastTiles l bombPos =
     calculateCircularBlast l bombPos (max 1 (blastRange (config l) - 1))"

text \<open>
  The contract of the specification, in its own words: the bomb's cell and four rays of up
  to \<open>blastRange\<close> cells along N, E, S and W, each ray ending before the first Wall.
\<close>

fun crossRay :: "Level \<Rightarrow> Vec \<Rightarrow> int \<times> int \<Rightarrow> nat \<Rightarrow> Vec list" where
  "crossRay l p d 0 = []"
| "crossRay l p d (Suc n) =
     (let q = Vec (vx p + fst d) (vy p + snd d)
      in if tileAt l q = Some WALL then [] else q # crossRay l q d n)"

text \<open>The four directions, in the order of the pathfinder's \<open>directions\<close> array.\<close>

definition directions :: "(int \<times> int) list" where
  "directions = [(0, -1), (1, 0), (0, 1), (-1, 0)]"

definition orthogonalCross :: "Level \<Rightarrow> Vec \<Rightarrow> int \<Rightarrow> Vec set" where
  "orthogonalCross l bombPos reach =
     insert bombPos (\<Union>d \<in> set directions. set (crossRay l bombPos d (nat reach)))"

section \<open>Sorting with a comparator\<close>

text \<open>
  \<open>Array.prototype.sort(compare)\<close> is a stable sort. Every comparator of the game is
  a lexicographic comparison of keys, for which each stable sort returns the same array;
  the model inserts from the right, which is stable.
\<close>

fun insertBy :: "('a \<Rightarrow> 'a \<Rightarrow> int) \<Rightarrow> 'a \<Rightarrow> 'a list \<Rightarrow> 'a list" where
  "insertBy cmp x [] = [x]"
| "insertBy cmp x (y # ys) = (if cmp x y \<le> 0 then x # y # ys else y # insertBy cmp x ys)"

fun sortBy :: "('a \<Rightarrow> 'a \<Rightarrow> int) \<Rightarrow> 'a list \<Rightarrow> 'a list" where
  "sortBy cmp [] = []"
| "sortBy cmp (x # xs) = insertBy cmp x (sortBy cmp xs)"

text \<open>\<open>findIndex\<close> followed by \<open>splice(index, 1)\<close>: drop the first element that matches.\<close>

fun removeFirst :: "('a \<Rightarrow> bool) \<Rightarrow> 'a list \<Rightarrow> 'a list" where
  "removeFirst P [] = []"
| "removeFirst P (x # xs) = (if P x then xs else x # removeFirst P xs)"

section \<open>Pathfinding\<close>

text \<open>
  \<open>gScore\<close> is a \<open>Map\<close> from cell keys to numbers. \<open>tentativeG < (gScore.get(key) ||
  Infinity)\<close> holds when the key is absent and also when its score is \<open>0\<close> (falsy).
  The comparator of the open set orders by \<open>f\<close>, then by the heuristic, then by row and
  column.
\<close>

type_synonym gScore = "Vec \<Rightarrow> nat option"

definition lessThanScore :: "nat \<Rightarrow> nat option \<Rightarrow> bool" where
  "lessThanScore t s = (case s of None \<Rightarrow> True | Some k \<Rightarrow> if k = 0 then True else t < k)"

definition compareOpen :: "Vec \<Rightarrow> Vec \<Rightarrow> nat \<Rightarrow> Vec \<Rightarrow> nat \<Rightarrow> int" where
  "compareOpen e pa fa pb fb =
     (if fa \<noteq> fb then int fa - int fb
      else (let hA = manhattanDistance pa e; hB = manhattanDistance pb e in
            if hA \<noteq> hB then int hA - int hB
            else if vy pa \<noteq> vy pb then vy pa - vy pb
            else vx pa - vx pb))"

text \<open>A node of the open set of \<open>getPathDistance\<close>: an object \<open>{pos, g, f}\<close>.\<close>

record PNode =
  n_pos :: Vec
  n_g :: nat
  n_f :: nat

definition neighbor :: "Vec \<Rightarrow> int \<times> int \<Rightarrow> Vec" where
  "neighbor p d = Vec (vx p + fst d) (vy p + snd d)"

text \<open>
  The body of the loop over the four directions, for one direction: the open set and the
  scores after it. The closed set, a \<open>Set\<close> of keys in the source, is the list of the
  cells added to it.
\<close>

definition relaxP :: "Level \<Rightarrow> Vec \<Rightarrow> PNode \<Rightarrow> Vec list \<Rightarrow> int \<times> int \<Rightarrow> PNode list \<times> gScore \<Rightarrow> PNode list \<times> gScore" where
  "relaxP l e current closedSet dir st =
     (let nb = neighbor (n_pos current) dir in
      if \<not> isPassable l nb \<or> nb \<in> set closedSet then st
      else
        (let tentativeG = n_g current + 1 in
         if lessThanScore tentativeG (snd st nb)
         then (removeFirst (\<lambda>item. n_pos item = nb) (fst st)
                 @ [\<lparr> n_pos = nb, n_g = tentativeG, n_f = tentativeG + manhattanDistance nb e \<rparr>],
               (snd st)(nb \<mapsto> tentativeG))
         else st))"

definition sortOpenP :: "Vec \<Rightarrow> PNode list \<Rightarrow> PNode list" where
  "sortOpenP e = sortBy (\<lambda>a b. compareOpen e (n_pos a) (n_f a) (n_pos b) (n_f b))"

text \<open>
  The search terminates: a node is pushed only when it lowers the score of a passable
  cell (or gives it its first score above 0), so the number of passable cells without a
  positive score, then the sum of the scores, then the length of the open set decrease
  lexicographically from one round of the loop to the next.
\<close>

definition unscored :: "Level \<Rightarrow> gScore \<Rightarrow> nat" where
  "unscored l gs = card {p. isPassable l p \<and> (gs p = None \<or> gs p = Some 0)}"

definition scoreSum :: "Level \<Rightarrow> gScore \<Rightarrow> nat" where
  "scoreSum l gs = (\<Sum>p \<in> {p. isPassable l p}. case gs p of None \<Rightarrow> 0 | Some k \<Rightarrow> k)"

definition scoreOrder :: "((nat \<times> nat) \<times> (nat \<times> nat)) set" where
  "scoreOrder = less_than <*lex*> less_than"

lemma finite_passable: "finite {p. isPassable l p}"
proof -
  have "{p. isPassable l p} \<subseteq> (\<lambda>(a, b). Vec a b) ` ({0..<gridSize (config l)} \<times> {0..<gridSize (config l)})"
  proof
    fix p assume "p \<in> {p. isPassable l p}"
    then have v: "isValidPosition l p" by (simp add: isPassable_def split: if_splits)
    have "p = (\<lambda>(a, b). Vec a b) (vx p, vy p)" by simp
    moreover have "(vx p, vy p) \<in> {0..<gridSize (config l)} \<times> {0..<gridSize (config l)}"
      using v by (simp add: isValidPosition_def)
    ultimately show "p \<in> (\<lambda>(a, b). Vec a b) ` ({0..<gridSize (config l)} \<times> {0..<gridSize (config l)})"
      by (rule image_eqI)
  qed
  then show ?thesis by (rule finite_subset) simp
qed

lemma score_update:
  assumes p: "isPassable l nb" and lt: "lessThanScore t (gs nb)" and t: "0 < t"
  shows "((unscored l (gs(nb \<mapsto> t)), scoreSum l (gs(nb \<mapsto> t))), (unscored l gs, scoreSum l gs)) \<in> scoreOrder"
proof (cases "gs nb = None \<or> gs nb = Some 0")
  case True
  let ?A = "{p. isPassable l p \<and> (gs p = None \<or> gs p = Some 0)}"
  have fin: "finite ?A" using finite_passable[of l] by (rule rev_finite_subset) auto
  have "{p. isPassable l p \<and> ((gs(nb \<mapsto> t)) p = None \<or> (gs(nb \<mapsto> t)) p = Some 0)} = ?A - {nb}"
    using t by auto
  moreover have "nb \<in> ?A" using p True by simp
  ultimately have "unscored l (gs(nb \<mapsto> t)) < unscored l gs"
    unfolding unscored_def using fin by (simp only: card_Diff1_less)
  then show ?thesis by (simp add: scoreOrder_def)
next
  case False
  then obtain k where k: "gs nb = Some k" "0 < k" by auto
  with lt have tk: "t < k" by (simp add: lessThanScore_def)
  have "{p. isPassable l p \<and> ((gs(nb \<mapsto> t)) p = None \<or> (gs(nb \<mapsto> t)) p = Some 0)}
        = {p. isPassable l p \<and> (gs p = None \<or> gs p = Some 0)}"
    using t k by auto
  then have u: "unscored l (gs(nb \<mapsto> t)) = unscored l gs" by (simp add: unscored_def)
  let ?P = "{p. isPassable l p}"
  let ?f = "\<lambda>g p. case g p of None \<Rightarrow> 0 | Some (k::nat) \<Rightarrow> k"
  have nbP: "nb \<in> ?P" using p by simp
  have s1: "sum (?f gs) ?P = ?f gs nb + sum (?f gs) (?P - {nb})"
    using finite_passable nbP by (rule sum.remove)
  have s2: "sum (?f (gs(nb \<mapsto> t))) ?P = ?f (gs(nb \<mapsto> t)) nb + sum (?f (gs(nb \<mapsto> t))) (?P - {nb})"
    using finite_passable nbP by (rule sum.remove)
  have s3: "sum (?f (gs(nb \<mapsto> t))) (?P - {nb}) = sum (?f gs) (?P - {nb})"
    by (rule sum.cong) auto
  have "scoreSum l (gs(nb \<mapsto> t)) < scoreSum l gs"
    unfolding scoreSum_def using s1 s2 s3 k tk by simp
  with u show ?thesis by (simp add: scoreOrder_def)
qed

definition progress :: "Level \<Rightarrow> 'a list \<times> gScore \<Rightarrow> 'a list \<times> gScore \<Rightarrow> bool" where
  "progress l st' st =
     (((unscored l (snd st'), scoreSum l (snd st')), (unscored l (snd st), scoreSum l (snd st))) \<in> scoreOrder
      \<or> st' = st)"

lemma trans_scoreOrder: "trans scoreOrder"
  unfolding scoreOrder_def by (intro trans_lex_prod trans_less_than)

lemma progress_refl: "progress l st st"
  by (simp add: progress_def)

lemma progress_trans: "progress l c b \<Longrightarrow> progress l b a \<Longrightarrow> progress l c a"
  unfolding progress_def using trans_scoreOrder by (auto dest: transD)

lemma relaxP_progress: "progress l (relaxP l e cur cl d st) st"
  unfolding relaxP_def Let_def progress_def
  by (auto intro!: score_update)

lemma fold_progress:
  assumes "\<And>d st. progress l (f d st) st"
  shows "progress l (fold f ds st) st"
proof (induction ds arbitrary: st)
  case Nil show ?case by (simp add: progress_refl)
next
  case (Cons d ds)
  have "progress l (fold f ds (f d st)) (f d st)" by (rule Cons.IH)
  moreover have "progress l (f d st) st" by (rule assms)
  ultimately show ?case by (simp add: progress_trans)
qed

lemma length_insertBy: "length (insertBy cmp x xs) = Suc (length xs)"
  by (induction xs) auto

lemma length_sortBy: "length (sortBy cmp xs) = length xs"
  by (induction xs) (auto simp: length_insertBy)

definition searchOrder :: "((nat \<times> nat \<times> nat) \<times> (nat \<times> nat \<times> nat)) set" where
  "searchOrder = less_than <*lex*> less_than <*lex*> less_than"

lemma progress_searchOrder:
  assumes "progress l st' (rest, gs)" and "length rest < n"
  shows "((unscored l (snd st'), scoreSum l (snd st'), length (fst st')), (unscored l gs, scoreSum l gs, n)) \<in> searchOrder"
  using assms unfolding progress_def searchOrder_def scoreOrder_def by auto

text \<open>
  The loop \<open>while (openSet.length > 0)\<close> of \<open>getPathDistance\<close>: sort, take the first
  node, return its \<open>g\<close> at the target, else close it and relax its neighbours. Leaving
  the loop with an empty open set is the result \<open>Infinity\<close>, here \<open>None\<close>.
\<close>

function pathLoop :: "Level \<Rightarrow> Vec \<Rightarrow> PNode list \<Rightarrow> Vec list \<Rightarrow> gScore \<Rightarrow> nat option" where
  "pathLoop l e openSet closedSet gs =
     (if openSet = [] then None
      else
        (let sorted = sortOpenP e openSet; current = hd sorted; rest = tl sorted in
         if Vec_equals (n_pos current) e then Some (n_g current)
         else
           (let closedSet' = n_pos current # closedSet;
                st = fold (relaxP l e current closedSet') directions (rest, gs)
            in pathLoop l e (fst st) closedSet' (snd st))))"
  by pat_completeness auto
termination
proof (relation "inv_image searchOrder (\<lambda>(l, e, openSet, closedSet, gs). (unscored l gs, scoreSum l gs, length openSet))")
  show "wf (inv_image searchOrder (\<lambda>(l, e, openSet, closedSet, gs). (unscored l gs, scoreSum l gs, length openSet)))"
    by (simp add: searchOrder_def wf_lex_prod)
next
  fix l e and openSet :: "PNode list" and closedSet gs sorted current rest closedSet' st
  assume ne: "openSet \<noteq> []" and s: "sorted = sortOpenP e openSet" and r: "rest = tl sorted"
    and st: "st = fold (relaxP l e current closedSet') directions (rest, gs)"
  have "length rest < length openSet"
    using ne by (simp add: r s sortOpenP_def length_sortBy)
  moreover have "progress l st (rest, gs)"
    unfolding st by (rule fold_progress) (rule relaxP_progress)
  ultimately show "((l, e, fst st, closedSet', snd st), (l, e, openSet, closedSet, gs))
      \<in> inv_image searchOrder (\<lambda>(l, e, openSet, closedSet, gs). (unscored l gs, scoreSum l gs, length openSet))"
    by (simp add: progress_searchOrder)
qed

declare pathLoop.simps [simp del]

definition getPathDistance :: "Level \<Rightarrow> Vec \<Rightarrow> Vec \<Rightarrow> nat option" where
  "getPathDistance l start end =
     (if Vec_equals start end then Some 0
      else pathLoop l end [\<lparr> n_pos = start, n_g = 0, n_f = manhattanDistance start end \<rparr>] []
             (Map.empty(start \<mapsto> 0)))"

text \<open>
  \<open>getNextStep\<close> runs the same search with a \<open>parent\<close> link in every node, and walks the
  links back from the target to the node whose parent is the start.
\<close>

datatype SNode = SNode (s_pos: Vec) (s_g: nat) (s_f: nat) (s_parent: "SNode option")

definition relaxS :: "Level \<Rightarrow> Vec \<Rightarrow> SNode \<Rightarrow> Vec list \<Rightarrow> int \<times> int \<Rightarrow> SNode list \<times> gScore \<Rightarrow> SNode list \<times> gScore" where
  "relaxS l e current closedSet dir st =
     (let nb = neighbor (s_pos current) dir in
      if \<not> isPassable l nb \<or> nb \<in> set closedSet then st
      else
        (let tentativeG = s_g current + 1 in
         if lessThanScore tentativeG (snd st nb)
         then (removeFirst (\<lambda>item. s_pos item = nb) (fst st)
                 @ [SNode nb tentativeG (tentativeG + manhattanDistance nb e) (Some current)],
               (snd st)(nb \<mapsto> tentativeG))
         else st))"

definition sortOpenS :: "Vec \<Rightarrow> SNode list \<Rightarrow> SNode list" where
  "sortOpenS e = sortBy (\<lambda>a b. compareOpen e (s_pos a) (s_f a) (s_pos b) (s_f b))"

fun firstStep :: "Vec \<Rightarrow> SNode \<Rightarrow> Vec" where
  "firstStep start (SNode p g f None) = p"
| "firstStep start (SNode p g f (Some par)) =
     (if \<not> Vec_equals (s_pos par) start then firstStep start par else p)"

lemma relaxS_progress: "progress l (relaxS l e cur cl d st) st"
  unfolding relaxS_def Let_def progress_def
  by (auto intro!: score_update)

function stepLoop :: "Level \<Rightarrow> Vec \<Rightarrow> Vec \<Rightarrow> SNode list \<Rightarrow> Vec list \<Rightarrow> gScore \<Rightarrow> Vec" where
  "stepLoop l start e openSet closedSet gs =
     (if openSet = [] then start
      else
        (let sorted = sortOpenS e openSet; current = hd sorted; rest = tl sorted in
         if Vec_equals (s_pos current) e then firstStep start current
         else
           (let closedSet' = s_pos current # closedSet;
                st = fold (relaxS l e current closedSet') directions (rest, gs)
            in stepLoop l start e (fst st) closedSet' (snd st))))"
  by pat_completeness auto
termination
proof (relation "inv_image searchOrder (\<lambda>(l, start, e, openSet, closedSet, gs). (unscored l gs, scoreSum l gs, length openSet))")
  show "wf (inv_image searchOrder (\<lambda>(l, start, e, openSet, closedSet, gs). (unscored l gs, scoreSum l gs, length openSet)))"
    by (simp add: searchOrder_def wf_lex_prod)
next
  fix l start e and openSet :: "SNode list" and closedSet gs sorted current rest closedSet' st
  assume ne: "openSet \<noteq> []" and s: "sorted = sortOpenS e openSet" and r: "rest = tl sorted"
    and st: "st = fold (relaxS l e current closedSet') directions (rest, gs)"
  have "length rest < length openSet"
    using ne by (simp add: r s sortOpenS_def length_sortBy)
  moreover have "progress l st (rest, gs)"
    unfolding st by (rule fold_progress) (rule relaxS_progress)
  ultimately show "((l, start, e, fst st, closedSet', snd st), (l, start, e, openSet, closedSet, gs))
      \<in> inv_image searchOrder (\<lambda>(l, start, e, openSet, closedSet, gs). (unscored l gs, scoreSum l gs, length openSet))"
    by (simp add: progress_searchOrder)
qed

declare stepLoop.simps [simp del]

definition getNextStep :: "Level \<Rightarrow> Vec \<Rightarrow> Vec \<Rightarrow> Vec" where
  "getNextStep l start target =
     (if Vec_equals start target then start
      else stepLoop l start target [SNode start 0 (manhattanDistance start target) None] []
             (Map.empty(start \<mapsto> 0)))"

section \<open>Guard policy\<close>

text \<open>
  A noise source is an object \<open>{pos, level}\<close>. \<open>explodingSources.includes(a)\<close> asks whether
  the object came from the array of explosions; the model pairs every source with that
  flag when it builds \<open>allSources\<close>.
\<close>

record NoiseSource =
  ns_pos :: Vec
  ns_level :: int

text \<open>\<open>distance <= hearingRadius\<close>, where the distance may be \<open>Infinity\<close> (\<open>None\<close>).\<close>

definition withinHearing :: "nat option \<Rightarrow> int \<Rightarrow> bool" where
  "withinHearing d r = (case d of None \<Rightarrow> False | Some n \<Rightarrow> int n \<le> r)"

text \<open>
  \<open>distA - distB\<close> for two different distances: a finite difference, or plus or minus
  \<open>Infinity\<close>, of which the sort reads the sign only.
\<close>

definition distDiff :: "nat option \<Rightarrow> nat option \<Rightarrow> int" where
  "distDiff a b = (case a of
       None \<Rightarrow> (case b of None \<Rightarrow> 0 | Some n \<Rightarrow> 1)
     | Some m \<Rightarrow> (case b of None \<Rightarrow> -1 | Some n \<Rightarrow> int m - int n))"

definition compareSources :: "Level \<Rightarrow> Guard \<Rightarrow> NoiseSource \<times> bool \<Rightarrow> NoiseSource \<times> bool \<Rightarrow> int" where
  "compareSources l guard a b =
     (if ns_level (fst a) \<noteq> ns_level (fst b) then ns_level (fst b) - ns_level (fst a)
      else
        (let distA = getPathDistance l (g_pos guard) (ns_pos (fst a));
             distB = getPathDistance l (g_pos guard) (ns_pos (fst b)) in
         if distA \<noteq> distB then distDiff distA distB
         else if snd a \<noteq> snd b then (if snd b then 1 else -1)
         else if vy (ns_pos (fst a)) \<noteq> vy (ns_pos (fst b))
              then vy (ns_pos (fst a)) - vy (ns_pos (fst b))
         else vx (ns_pos (fst a)) - vx (ns_pos (fst b))))"

definition allSources :: "NoiseSource list \<Rightarrow> NoiseSource list \<Rightarrow> (NoiseSource \<times> bool) list" where
  "allSources tickingSources explodingSources =
     map (\<lambda>s. (s, False)) tickingSources @ map (\<lambda>s. (s, True)) explodingSources"

definition audibleSources :: "Level \<Rightarrow> Guard \<Rightarrow> NoiseSource list \<Rightarrow> NoiseSource list \<Rightarrow> (NoiseSource \<times> bool) list" where
  "audibleSources l guard tickingSources explodingSources =
     filter (\<lambda>source. withinHearing (getPathDistance l (g_pos guard) (ns_pos (fst source)))
                                     (g_hearingRadius guard))
            (allSources tickingSources explodingSources)"

definition chooseGuardTarget :: "Level \<Rightarrow> Guard \<Rightarrow> NoiseSource list \<Rightarrow> NoiseSource list \<Rightarrow> NoiseSource option" where
  "chooseGuardTarget l guard tickingSources explodingSources =
     (let audible = audibleSources l guard tickingSources explodingSources in
      if audible = [] then None
      else Some (fst (hd (sortBy (compareSources l guard) audible))))"

section \<open>Movement arbiter\<close>

text \<open>
  A JavaScript \<open>Map\<close> iterates in insertion order; \<open>set\<close> on a key that is present
  replaces the value where it stands. The maps of the arbiter are association lists.
\<close>

fun mapSet :: "'k \<Rightarrow> 'v \<Rightarrow> ('k \<times> 'v) list \<Rightarrow> ('k \<times> 'v) list" where
  "mapSet k v [] = [(k, v)]"
| "mapSet k v (p # ps) = (if fst p = k then (k, v) # ps else p # mapSet k v ps)"

definition groupByDestination :: "(nat \<times> Vec) list \<Rightarrow> (Vec \<times> nat list) list" where
  "groupByDestination proposals =
     fold (\<lambda>(guardId, destination) dm.
             case map_of dm destination of
               None \<Rightarrow> mapSet destination [guardId] dm
             | Some ids \<Rightarrow> mapSet destination (ids @ [guardId]) dm)
          proposals []"

text \<open>
  One round of the loop over the proposals. Reading \<open>pos\<close> of a guard that \<open>find\<close> did
  not find throws. In \<open>if (occupyingGuardId)\<close> the values \<open>undefined\<close>, \<open>null\<close> and the
  number \<open>0\<close> are falsy.
\<close>

definition resolveOne :: "Guard list \<Rightarrow> (nat \<times> Vec) list \<Rightarrow> (Vec \<times> nat list) list \<Rightarrow> nat \<times> Vec
    \<Rightarrow> error + (nat \<times> Vec) list \<Rightarrow> error + (nat \<times> Vec) list" where
  "resolveOne gs proposals destinationMap prop acc =
     (case acc of
        Inl e \<Rightarrow> Inl e
      | Inr validMoves \<Rightarrow>
         (let guardId = fst prop; destination = snd prop in
          case (find (\<lambda>g. g_id g = guardId) gs, map_of destinationMap destination) of
            (Some guard, Some claimants) \<Rightarrow>
              if length claimants > 1 then Inr (mapSet guardId (g_pos guard) validMoves)
              else
                (let occupyingGuardId =
                       (case map_of destinationMap (g_pos guard) of
                          None \<Rightarrow> None
                        | Some ids \<Rightarrow> find (\<lambda>i. i \<noteq> guardId) ids) in
                 case occupyingGuardId of
                   None \<Rightarrow> Inr (mapSet guardId destination validMoves)
                 | Some oid \<Rightarrow>
                     if oid = 0 then Inr (mapSet guardId destination validMoves)
                     else
                       (case map_of proposals oid of
                          Some occupyingDestination \<Rightarrow>
                            if Vec_equals occupyingDestination (g_pos guard)
                            then (case find (\<lambda>g. g_id g = oid) gs of
                                    None \<Rightarrow> Inl TypeError
                                  | Some occupyingGuard \<Rightarrow>
                                      Inr (mapSet oid (g_pos occupyingGuard)
                                             (mapSet guardId (g_pos guard) validMoves)))
                            else Inr (mapSet guardId destination validMoves)
                        | None \<Rightarrow> Inr (mapSet guardId destination validMoves)))
          | _ \<Rightarrow> Inl TypeError))"

definition applyMoves :: "(nat \<times> Vec) list \<Rightarrow> Guard list \<Rightarrow> Guard list" where
  "applyMoves validMoves gs =
     map (\<lambda>guard. case map_of validMoves (g_id guard) of
                    None \<Rightarrow> guard
                  | Some newPos \<Rightarrow> guard\<lparr> g_pos := newPos \<rparr>) gs"

text \<open>
  \<open>resolveMovementConflicts\<close> on the guards of the level: the result is the list of guards
  with their new positions.
\<close>

definition resolveMovementConflicts :: "Guard list \<Rightarrow> (nat \<times> Vec) list \<Rightarrow> error + Guard list" where
  "resolveMovementConflicts gs proposals =
     (let destinationMap = groupByDestination proposals in
      case fold (resolveOne gs proposals destinationMap) proposals (Inr []) of
        Inl e \<Rightarrow> Inl e
      | Inr validMoves \<Rightarrow> Inr (applyMoves validMoves gs))"

section \<open>Turn engine\<close>

definition getNoiseLevel :: "Bomb \<Rightarrow> int" where
  "getNoiseLevel b =
     (if b_state b = EXPLODING then 4
      else if \<not> b_hasTimer b then 3
      else 4 - b_timer b)"

text \<open>
  Phase 1, one bomb: the bomb after the tick, the ticking sources and the exploding
  sources it adds.
\<close>

definition tickBomb :: "Config \<Rightarrow> Bomb \<Rightarrow> Bomb \<times> NoiseSource list \<times> NoiseSource list" where
  "tickBomb c bomb =
     (if timersAllowed c \<and> b_hasTimer bomb then
        (if b_timer bomb > 1 then
           (let b' = bomb\<lparr> b_timer := b_timer bomb - 1 \<rparr>
            in (b', [\<lparr> ns_pos = b_pos b', ns_level = getNoiseLevel b' \<rparr>], []))
         else
           (bomb\<lparr> b_state := EXPLODING \<rparr>,
            [\<lparr> ns_pos = b_pos bomb, ns_level = getNoiseLevel bomb \<rparr>],
            [\<lparr> ns_pos = b_pos bomb, ns_level = 4 \<rparr>]))
      else
        (bomb\<lparr> b_state := EXPLODING \<rparr>, [], [\<lparr> ns_pos = b_pos bomb, ns_level = 4 \<rparr>]))"

definition tickBombs :: "Config \<Rightarrow> Bomb list \<Rightarrow> Bomb list \<times> NoiseSource list \<times> NoiseSource list" where
  "tickBombs c bs =
     fold (\<lambda>bomb acc. let r = tickBomb c bomb
                      in (fst acc @ [fst r], fst (snd acc) @ fst (snd r), snd (snd acc) @ snd (snd r)))
          bs ([], [], [])"

text \<open>Phase 2, one guard: the guard with its memory and pursuit updated, and its proposal.\<close>

definition decideGuard :: "Level \<Rightarrow> int \<Rightarrow> NoiseSource list \<Rightarrow> NoiseSource list \<Rightarrow> Guard \<Rightarrow> Guard \<times> Vec" where
  "decideGuard l turn tickingSources explodingSources guard =
     (case chooseGuardTarget l guard tickingSources explodingSources of
        Some target \<Rightarrow>
          (guard\<lparr> g_memory := None, g_targetPos := Some (ns_pos target) \<rparr>,
           getNextStep l (g_pos guard) (ns_pos target))
      | None \<Rightarrow>
          (case g_memory guard of
             Some m \<Rightarrow>
               if turn - snd m \<le> memoryTTL (config l)
               then (guard\<lparr> g_targetPos := Some (fst m) \<rparr>, getNextStep l (g_pos guard) (fst m))
               else (guard\<lparr> g_targetPos := None \<rparr>, g_pos guard)
           | None \<Rightarrow> (guard\<lparr> g_targetPos := None \<rparr>, g_pos guard)))"

definition decideGuards :: "Level \<Rightarrow> int \<Rightarrow> NoiseSource list \<Rightarrow> NoiseSource list \<Rightarrow> Guard list
    \<Rightarrow> Guard list \<times> (nat \<times> Vec) list" where
  "decideGuards l turn tickingSources explodingSources gs =
     fold (\<lambda>guard acc. let r = decideGuard l turn tickingSources explodingSources guard
                       in (fst acc @ [fst r], mapSet (g_id guard) (snd r) (snd acc)))
          gs ([], [])"

text \<open>
  Phase 4, one exploding bomb: targets in the blast are destroyed, and a guard in the
  blast sets the casualty flag.
\<close>

definition explodeBomb :: "Level \<Rightarrow> Guard list \<Rightarrow> Bomb \<Rightarrow> Target list \<times> bool \<Rightarrow> Target list \<times> bool" where
  "explodeBomb l gs bomb acc =
     (let blastTiles = calculateBlastTiles l (b_pos bomb) in
      (map (\<lambda>target. if \<not> t_destroyed target \<and> list_ex (\<lambda>tile. Vec_equals tile (t_pos target)) blastTiles
                      then target\<lparr> t_destroyed := True \<rparr> else target) (fst acc),
       snd acc \<or> list_ex (\<lambda>guard. list_ex (\<lambda>tile. Vec_equals tile (g_pos guard)) blastTiles) gs))"

definition compareExplosions :: "Level \<Rightarrow> Guard \<Rightarrow> NoiseSource \<Rightarrow> NoiseSource \<Rightarrow> int" where
  "compareExplosions l guard a b =
     (let distA = getPathDistance l (g_pos guard) (ns_pos a);
          distB = getPathDistance l (g_pos guard) (ns_pos b) in
      if distA \<noteq> distB then distDiff distA distB
      else if vy (ns_pos a) \<noteq> vy (ns_pos b) then vy (ns_pos a) - vy (ns_pos b)
      else vx (ns_pos a) - vx (ns_pos b))"

text \<open>Phase 5, one guard.\<close>

definition updateMemory :: "Level \<Rightarrow> int \<Rightarrow> NoiseSource list \<Rightarrow> Guard \<Rightarrow> Guard" where
  "updateMemory l turn explodingSources guard =
     (let audibleExplosions =
            filter (\<lambda>explosion. withinHearing (getPathDistance l (g_pos guard) (ns_pos explosion))
                                              (g_hearingRadius guard)) explodingSources in
      if audibleExplosions \<noteq> []
      then guard\<lparr> g_memory := Some (ns_pos (hd (sortBy (compareExplosions l guard) audibleExplosions)), turn) \<rparr>
      else (case g_memory guard of
              Some m \<Rightarrow> if turn - snd m > memoryTTL (config l) then guard\<lparr> g_memory := None \<rparr> else guard
            | None \<Rightarrow> guard))"

text \<open>
  One resolved turn. The explosion animations that the source queues for the renderer
  are not part of the state.
\<close>

definition simulateTurn :: "Game \<Rightarrow> error + Game" where
  "simulateTurn s =
     (let turn = turnIndex s + 1;
          l = level s;
          ticked = tickBombs (config l) (bombs s);
          bombs1 = fst ticked;
          tickingSources = fst (snd ticked);
          explodingSources = snd (snd ticked);
          decided = decideGuards l turn tickingSources explodingSources (guards l)
      in case resolveMovementConflicts (fst decided) (snd decided) of
           Inl e \<Rightarrow> Inl e
         | Inr moved \<Rightarrow>
            (let l1 = l\<lparr> guards := moved \<rparr>;
                 explodingBombs = filter (\<lambda>bomb. b_state bomb = EXPLODING) bombs1;
                 blasted = fold (explodeBomb l1 moved) explodingBombs (targets l1, False);
                 anyGuardKilled = snd blasted;
                 bombs2 = filter (\<lambda>bomb. b_state bomb \<noteq> EXPLODING) bombs1;
                 l2 = l1\<lparr> targets := fst blasted,
                          guards := map (updateMemory l1 turn explodingSources) moved \<rparr>;
                 state' = (if anyGuardKilled then LOST
                           else if list_all t_destroyed (targets l2) then WON
                           else gameState s)
             in Inr (s\<lparr> level := l2, bombs := bombs2, turnIndex := turn, gameState := state' \<rparr>)))"

section \<open>Level editor: guards through export and import\<close>




section \<open>What the specification says, and example levels\<close>

text \<open>A descriptor whose configuration has no \<open>maxActiveBombs\<close>.\<close>

definition omitsMaxActiveBombs :: "LevelData \<Rightarrow> bool" where
  "omitsMaxActiveBombs d = (case ld_config d of None \<Rightarrow> True | Some c \<Rightarrow> cd_maxActiveBombs c = None)"

definition occupiedByBomb :: "Game \<Rightarrow> Vec \<Rightarrow> bool" where
  "occupiedByBomb s p = list_ex (\<lambda>b. Vec_equals (b_pos b) p) (bombs s)"

text \<open>The tests that \<open>placeBomb\<close> and \<open>canPlaceBomb\<close> make, collected.\<close>

definition placementRejected :: "Game \<Rightarrow> Vec \<Rightarrow> bool" where
  "placementRejected s p =
     (\<not> isValidPosition (level s) p
      \<or> tileAt (level s) p \<noteq> Some FLOOR
      \<or> isOccupiedByTarget (level s) p
      \<or> isOccupiedByGuard (level s) p
      \<or> (case maxActiveBombs (config (level s)) of None \<Rightarrow> False | Some c \<Rightarrow> c \<le> int (length (bombs s)))
      \<or> maxBombsPerTurn (config (level s)) \<le> int (bombsThisTurn s))"

text \<open>
  A three by three room of Floor with one guard, whose descriptor gives it the hearing
  radius 0, and one target; two bombs may be placed per turn.
\<close>

definition roomConfig :: "int option \<Rightarrow> ConfigData" where
  "roomConfig cap = \<lparr> cd_gridSize = Some 3, cd_blastRange = None, cd_defaultHearingRadius = None,
     cd_memoryTTL = None, cd_maxBombsPerTurn = Some 2, cd_maxActiveBombs = cap,
     cd_timersAllowed = Some True \<rparr>"

definition roomData :: "int option \<Rightarrow> LevelData" where
  "roomData cap = \<lparr> ld_config = Some (roomConfig cap),
     ld_grid = Some [[FLOOR, FLOOR, FLOOR], [FLOOR, FLOOR, FLOOR], [FLOOR, FLOOR, FLOOR]],
     ld_targets = Some [\<lparr> td_x = 2, td_y = 2 \<rparr>],
     ld_guards = Some [\<lparr> gd_x = 0, gd_y = 2, gd_hearingRadius = Some 0 \<rparr>] \<rparr>"

definition roomLevel :: "int option \<Rightarrow> Level" where
  "roomLevel cap = \<lparr> config = \<lparr> gridSize = 3, blastRange = 3, defaultHearingRadius = 8, memoryTTL = 8,
        maxBombsPerTurn = 2, maxActiveBombs = cap, timersAllowed = True \<rparr>,
     grid = [[FLOOR, FLOOR, FLOOR], [FLOOR, FLOOR, FLOOR], [FLOOR, FLOOR, FLOOR]],
     targets = [\<lparr> t_id = 0, t_pos = Vec 2 2, t_destroyed = False \<rparr>],
     guards = [\<lparr> g_id = 0, g_pos = Vec 0 2, g_hearingRadius = 8, g_memory = None, g_targetPos = None \<rparr>] \<rparr>"

definition roomGame :: "int option \<Rightarrow> Bomb list \<Rightarrow> int \<Rightarrow> Game" where
  "roomGame cap bs turn = \<lparr> level = roomLevel cap, bombs = bs, turnIndex = turn, gameState = PLAYING,
     bombIdCounter = length bs \<rparr>"

text \<open>Four bombs of the two turns before, in the room at turn 2.\<close>

definition crowdedRoom :: "int option \<Rightarrow> Game" where
  "crowdedRoom cap = roomGame cap [newBomb 0 (Vec 0 0) True 0, newBomb 1 (Vec 1 0) True 0,
     newBomb 2 (Vec 2 0) True 1, newBomb 3 (Vec 0 1) True 1] 2"

text \<open>A two by two level whose only guard stands on the Wall at the origin.\<close>

definition wallGuardData :: LevelData where
  "wallGuardData = \<lparr> ld_config = Some \<lparr> cd_gridSize = Some 2, cd_blastRange = None,
       cd_defaultHearingRadius = None, cd_memoryTTL = None, cd_maxBombsPerTurn = None,
       cd_maxActiveBombs = Some 4, cd_timersAllowed = None \<rparr>,
     ld_grid = Some [[WALL, FLOOR], [FLOOR, FLOOR]],
     ld_targets = Some [\<lparr> td_x = 1, td_y = 1 \<rparr>],
     ld_guards = Some [\<lparr> gd_x = 0, gd_y = 0, gd_hearingRadius = Some 8 \<rparr>] \<rparr>"

definition wallGuardGame :: Game where
  "wallGuardGame = \<lparr> level = \<lparr> config = \<lparr> gridSize = 2, blastRange = 3, defaultHearingRadius = 8,
          memoryTTL = 8, maxBombsPerTurn = 1, maxActiveBombs = Some 4, timersAllowed = False \<rparr>,
        grid = [[WALL, FLOOR], [FLOOR, FLOOR]],
        targets = [\<lparr> t_id = 0, t_pos = Vec 1 1, t_destroyed = False \<rparr>],
        guards = [\<lparr> g_id = 0, g_pos = Vec 0 0, g_hearingRadius = 8, g_memory = None,
                   g_targetPos = None \<rparr>] \<rparr>,
     bombs = [], turnIndex = 0, gameState = PLAYING, bombIdCounter = 0 \<rparr>"

text \<open>A seven by seven room of Floor, with the default \<open>blastRange\<close> of 3.\<close>

definition openRoom :: Level where
  "openRoom = \<lparr> config = DEFAULT_CONFIG\<lparr> gridSize := 7 \<rparr>,
     grid = replicate 7 (replicate 7 FLOOR), targets = [], guards = [] \<rparr>"

text \<open>
  The corridor of the scenario: a level of \<open>gridSize\<close> 5 whose grid has the one row
  given, with \<open>blastRange\<close> 3. The rows below the corridor stay Void.
\<close>

definition corridorConfig :: "bool \<Rightarrow> ConfigData" where
  "corridorConfig timers = \<lparr> cd_gridSize = Some 5, cd_blastRange = Some 3,
     cd_defaultHearingRadius = None, cd_memoryTTL = None, cd_maxBombsPerTurn = None,
     cd_maxActiveBombs = Some 4, cd_timersAllowed = Some timers \<rparr>"

definition corridorData :: "Tile list \<Rightarrow> LevelData" where
  "corridorData row = \<lparr> ld_config = Some (corridorConfig False),
     ld_grid = Some [row], ld_targets = Some [], ld_guards = Some [] \<rparr>"

definition corridorLevel :: "Tile list \<Rightarrow> Level" where
  "corridorLevel row = \<lparr> config = \<lparr> gridSize = 5, blastRange = 3, defaultHearingRadius = 8,
       memoryTTL = 8, maxBombsPerTurn = 1, maxActiveBombs = Some 4, timersAllowed = False \<rparr>,
     grid = [row, replicate 5 VOID, replicate 5 VOID, replicate 5 VOID, replicate 5 VOID],
     targets = [], guards = [] \<rparr>"

text \<open>
  The same corridor with timers allowed, a target at its east end and two guards, one
  behind the other, at \<open>x = 1\<close> and \<open>x = 2\<close>.
\<close>

definition followData :: LevelData where
  "followData = \<lparr> ld_config = Some (corridorConfig True),
     ld_grid = Some [[FLOOR, FLOOR, FLOOR, FLOOR, FLOOR]],
     ld_targets = Some [\<lparr> td_x = 4, td_y = 0 \<rparr>],
     ld_guards = Some [\<lparr> gd_x = 1, gd_y = 0, gd_hearingRadius = Some 8 \<rparr>,
                       \<lparr> gd_x = 2, gd_y = 0, gd_hearingRadius = Some 8 \<rparr>] \<rparr>"

definition followGuards :: "Guard list" where
  "followGuards = [\<lparr> g_id = 0, g_pos = Vec 1 0, g_hearingRadius = 8, g_memory = None, g_targetPos = None \<rparr>,
                   \<lparr> g_id = 1, g_pos = Vec 2 0, g_hearingRadius = 8, g_memory = None, g_targetPos = None \<rparr>]"

definition followGame :: Game where
  "followGame = \<lparr> level = \<lparr> config = \<lparr> gridSize = 5, blastRange = 3, defaultHearingRadius = 8,
          memoryTTL = 8, maxBombsPerTurn = 1, maxActiveBombs = Some 4, timersAllowed = True \<rparr>,
        grid = [[FLOOR, FLOOR, FLOOR, FLOOR, FLOOR], replicate 5 VOID, replicate 5 VOID,
                replicate 5 VOID, replicate 5 VOID],
        targets = [\<lparr> t_id = 0, t_pos = Vec 4 0, t_destroyed = False \<rparr>],
        guards = followGuards \<rparr>,
     bombs = [], turnIndex = 0, gameState = PLAYING, bombIdCounter = 0 \<rparr>"

text \<open>Two guards side by side, at the origin and east of it.\<close>

definition swapGuards :: "Guard list" where
  "swapGuards = [\<lparr> g_id = 0, g_pos = Vec 0 0, g_hearingRadius = 8, g_memory = None, g_targetPos = None \<rparr>,
                 \<lparr> g_id = 1, g_pos = Vec 1 0, g_hearingRadius = 8, g_memory = None, g_targetPos = None \<rparr>]"








text \<open>
  Paths in the words of the specification: a path from \<open>a\<close> to \<open>b\<close> is a list of cells
  that starts with \<open>a\<close>, ends with \<open>b\<close>, consists of passable (Floor) cells only, and
  moves between orthogonal neighbours. Its hop count is its length minus one.
\<close>

definition adjacent :: "Vec \<Rightarrow> Vec \<Rightarrow> bool" where
  "adjacent a b = (manhattanDistance a b = 1)"

definition floorPath :: "Level \<Rightarrow> Vec \<Rightarrow> Vec \<Rightarrow> Vec list \<Rightarrow> bool" where
  "floorPath l a b cs =
     (cs \<noteq> [] \<and> hd cs = a \<and> last cs = b \<and> list_all (isPassable l) cs \<and> successively adjacent cs)"

text \<open>
  For the proofs about the search: a step enters a passable orthogonal neighbour;
  \<open>reach l s v n\<close> says that \<open>n\<close> steps lead from \<open>s\<close> to \<open>v\<close>; the invariant of the search
  loop says that every open node carries the length of some walk to its cell, that every
  closed cell has all its passable neighbours closed or open with a score at most one
  above its own distance, and that the recorded scores are those of the open nodes.
\<close>

definition step :: "Level \<Rightarrow> Vec \<Rightarrow> Vec \<Rightarrow> bool" where
  "step l u v = (v \<in> neighbor u ` set directions \<and> isPassable l v)"

inductive reach :: "Level \<Rightarrow> Vec \<Rightarrow> Vec \<Rightarrow> nat \<Rightarrow> bool" for l s where
  reach0: "reach l s s 0"
| reachS: "reach l s u n \<Longrightarrow> step l u v \<Longrightarrow> reach l s v (Suc n)"

definition shortest :: "Level \<Rightarrow> Vec \<Rightarrow> Vec \<Rightarrow> nat \<Rightarrow> bool" where
  "shortest l s v n = (reach l s v n \<and> (\<forall>m. reach l s v m \<longrightarrow> n \<le> m))"

definition openOk :: "Level \<Rightarrow> Vec \<Rightarrow> Vec \<Rightarrow> Vec list \<Rightarrow> gScore \<Rightarrow> PNode list \<Rightarrow> bool" where
  "openOk l s e closedSet gs openSet =
     (\<forall>n \<in> set openSet. reach l s (n_pos n) (n_g n) \<and> n_f n = n_g n + manhattanDistance (n_pos n) e
        \<and> n_pos n \<notin> set closedSet \<and> gs (n_pos n) = Some (n_g n))"

definition boundAt :: "PNode list \<Rightarrow> Vec list \<Rightarrow> Vec \<Rightarrow> nat \<Rightarrow> bool" where
  "boundAt openSet closedSet v b = (v \<in> set closedSet \<or> (\<exists>n \<in> set openSet. n_pos n = v \<and> n_g n \<le> b))"

definition closedOk :: "Level \<Rightarrow> Vec \<Rightarrow> PNode list \<Rightarrow> Vec list \<Rightarrow> Vec \<Rightarrow> bool" where
  "closedOk l s openSet closedSet u =
     (\<exists>k. shortest l s u k \<and> (\<forall>v. step l u v \<longrightarrow> boundAt openSet closedSet v (k + 1)))"

definition scoreOk :: "PNode list \<Rightarrow> Vec list \<Rightarrow> gScore \<Rightarrow> bool" where
  "scoreOk openSet closedSet gs =
     (\<forall>v k. gs v = Some k \<longrightarrow> v \<in> set closedSet \<or> (\<exists>n \<in> set openSet. n_pos n = v \<and> n_g n = k))"

definition searchInv :: "Level \<Rightarrow> Vec \<Rightarrow> Vec \<Rightarrow> PNode list \<Rightarrow> Vec list \<Rightarrow> gScore \<Rightarrow> bool" where
  "searchInv l s e openSet closedSet gs =
     (openOk l s e closedSet gs openSet
      \<and> distinct (map n_pos openSet)
      \<and> e \<notin> set closedSet
      \<and> (\<forall>u \<in> set closedSet. closedOk l s openSet closedSet u)
      \<and> (s \<in> set closedSet \<or> (\<exists>n. openSet = [n] \<and> n_pos n = s \<and> n_g n = 0))
      \<and> scoreOk openSet closedSet gs
      \<and> (\<forall>v. gs v = Some 0 \<longrightarrow> v = s))"

definition relaxInv :: "Level \<Rightarrow> Vec \<Rightarrow> Vec \<Rightarrow> PNode \<Rightarrow> Vec list \<Rightarrow> (int \<times> int) set
    \<Rightarrow> PNode list \<times> gScore \<Rightarrow> bool" where
  "relaxInv l s e current closedSet seen st =
     (openOk l s e closedSet (snd st) (fst st)
      \<and> distinct (map n_pos (fst st))
      \<and> e \<notin> set closedSet
      \<and> s \<in> set closedSet
      \<and> n_pos current \<in> set closedSet
      \<and> (\<forall>u \<in> set closedSet. u \<noteq> n_pos current \<longrightarrow> closedOk l s (fst st) closedSet u)
      \<and> shortest l s (n_pos current) (n_g current)
      \<and> (\<forall>d \<in> seen. isPassable l (neighbor (n_pos current) d)
            \<longrightarrow> boundAt (fst st) closedSet (neighbor (n_pos current) d) (n_g current + 1))
      \<and> scoreOk (fst st) closedSet (snd st)
      \<and> (\<forall>v. snd st v = Some 0 \<longrightarrow> v = s))"



text \<open>
  The states of a game on the level loaded from a descriptor: the state after loading,
  and every state that placements and resolved turns lead to from there.
\<close>

inductive played :: "LevelData \<Rightarrow> Game \<Rightarrow> bool" for d where
  loaded: "loadLevel d = Inr s \<Longrightarrow> played d s"
| placed: "played d s \<Longrightarrow> played d (snd (placeBomb s p))"
| turned: "played d s \<Longrightarrow> simulateTurn s = Inr s' \<Longrightarrow> played d s'"

text \<open>Placing bombs one after the other, whatever each call answers.\<close>

definition placeAll :: "Vec list \<Rightarrow> Game \<Rightarrow> Game" where
  "placeAll ps s = fold (\<lambda>p t. snd (placeBomb t p)) ps s"

text \<open>The state after a resolved turn (the state itself if the turn throws).\<close>

definition afterTurn :: "Game \<Rightarrow> Game" where
  "afterTurn s = (case simulateTurn s of Inl e \<Rightarrow> s | Inr t \<Rightarrow> t)"

text \<open>
  A play in the room without \<open>maxActiveBombs\<close>: two bombs placed on each of the turns 0
  and 1, each followed by the resolution of the turn.
\<close>

definition uncappedPlay :: Game where
  "uncappedPlay = afterTurn (placeAll [Vec 2 1, Vec 1 1]
                    (afterTurn (placeAll [Vec 2 0, Vec 1 0] (roomGame None [] 0))))"


section \<open>Loading: lemmas\<close>

lemma error_eq [simp]: "(e::error) = TypeError"
  by (cases e) simp



lemma newLevel_config: "newLevel d = Inr l \<Longrightarrow> config l = mergeConfig (ld_config d)"
  by (auto simp: newLevel_def Let_def split: sum.splits option.splits)


lemma copyGrid_fold_ok:
  "\<forall>y \<in> set ys. y < length g \<Longrightarrow>
   \<exists>g'. fold (copyGridStep src gsz) ys (Inr g) = Inr g' \<and> length g' = length g"
proof (induction ys arbitrary: g)
  case Nil
  then show ?case by simp
next
  case (Cons y ys)
  have "\<exists>g1. copyGridStep src gsz y (Inr g) = Inr g1 \<and> length g1 = length g"
    using Cons.prems by (simp add: copyGridStep_def Let_def)
  then obtain g1 where g1: "copyGridStep src gsz y (Inr g) = Inr g1" "length g1 = length g"
    by blast
  have "\<forall>z \<in> set ys. z < length g1" using Cons.prems g1 by simp
  from Cons.IH[OF this] show ?case using g1 by simp
qed

lemma copyGrid_ok:
  assumes "gridSize c \<le> MAX_GRID_SIZE"
  shows "\<exists>g. copyGrid src (gridSize c) (createEmptyGrid c) = Inr g \<and> length g = length (createEmptyGrid c)"
proof -
  have "\<forall>y \<in> set [0..<nat (min (int (length src)) (gridSize c))]. y < length (createEmptyGrid c)"
    using assms by (auto simp: createEmptyGrid_def Let_def or_default_def MAX_GRID_SIZE_def DEFAULT_CONFIG_def)
  from copyGrid_fold_ok[OF this] show ?thesis unfolding copyGrid_def by blast
qed

lemma map_pos_guards: "map g_pos (indexed (newGuard c) gs) = map (\<lambda>g. Vec (gd_x g) (gd_y g)) gs"
  by (rule nth_equalityI) (simp_all add: indexed_def newGuard_def)

lemma map_pos_targets: "map t_pos (indexed newTarget ts) = map (\<lambda>t. Vec (td_x t) (td_y t)) ts"
  by (rule nth_equalityI) (simp_all add: indexed_def newTarget_def)

lemma newLevel_room: "newLevel (roomData cap) = Inr (roomLevel cap)"
  by (simp add: newLevel_def roomData_def roomConfig_def roomLevel_def mergeConfig_def override_def
      DEFAULT_CONFIG_def createEmptyGrid_def or_default_def MAX_GRID_SIZE_def copyGrid_def
      copyGridStep_def copyRow_def indexed_def newTarget_def newGuard_def Let_def numeral_3_eq_3 upt_rec)

lemma level_ok_room: "level_ok (roomLevel cap)"
  by (simp add: level_ok_def roomLevel_def)

section \<open>Bomb placement\<close>

lemma simulateTurn_config: "simulateTurn s = Inr s' \<Longrightarrow> config (level s') = config (level s)"
  by (auto simp: simulateTurn_def Let_def split: sum.splits)

lemma placeBomb_level: "level (snd (placeBomb s p)) = level s"
  by (simp add: placeBomb_def)

lemma played_config: "played d s \<Longrightarrow> config (level s) = mergeConfig (ld_config d)"
proof (induction rule: played.induct)
  case (loaded s)
  then show ?case
    by (auto simp: loadLevel_def split: sum.splits dest: newLevel_config)
next
  case (placed s p)
  then show ?case by (simp add: placeBomb_level)
next
  case (turned s s')
  then show ?case by (simp add: simulateTurn_config)
qed


lemma placeBomb_uncapped:
  assumes "maxActiveBombs (config (level s)) = None"
  shows "placeBomb s p =
           (if canPlaceBomb (level s) p
               \<and> int (length (filter (\<lambda>b. b_turnPlaced b = turnIndex s) (bombs s)))
                   < maxBombsPerTurn (config (level s))
            then (True, s\<lparr> bombs := bombs s @ [newBomb (bombIdCounter s) p
                                           (timersAllowed (config (level s))) (turnIndex s)],
                     bombIdCounter := Suc (bombIdCounter s) \<rparr>)
            else (False, s))"
  using assms by (simp add: placeBomb_def ge_maybe_def bombsThisTurn_def)

lemma placeAll_uncapped:
  "maxActiveBombs (config (level s)) = None \<Longrightarrow> list_all (canPlaceBomb (level s)) ps \<Longrightarrow>
   int (length (filter (\<lambda>b. b_turnPlaced b = turnIndex s) (bombs s)) + length ps)
     \<le> maxBombsPerTurn (config (level s)) \<Longrightarrow>
   length (bombs (placeAll ps s)) = length (bombs s) + length ps"
proof (induction ps arbitrary: s)
  case Nil
  then show ?case by (simp add: placeAll_def)
next
  case (Cons p ps)
  let ?s' = "s\<lparr> bombs := bombs s @ [newBomb (bombIdCounter s) p
                                   (timersAllowed (config (level s))) (turnIndex s)],
                 bombIdCounter := Suc (bombIdCounter s) \<rparr>"
  have ok: "canPlaceBomb (level s) p
      \<and> int (length (filter (\<lambda>b. b_turnPlaced b = turnIndex s) (bombs s))) < maxBombsPerTurn (config (level s))"
    using Cons.prems(2,3) by simp
  have st: "snd (placeBomb s p) = ?s'"
    using placeBomb_uncapped[OF Cons.prems(1), of p] ok by simp
  have a: "maxActiveBombs (config (level ?s')) = None" using Cons.prems(1) by simp
  have b: "list_all (canPlaceBomb (level ?s')) ps" using Cons.prems(2) by simp
  have c: "int (length (filter (\<lambda>b. b_turnPlaced b = turnIndex ?s') (bombs ?s')) + length ps)
     \<le> maxBombsPerTurn (config (level ?s'))"
    using Cons.prems(3) by (simp add: newBomb_def)
  have "length (bombs (placeAll ps ?s')) = length (bombs ?s') + length ps"
    using a b c by (rule Cons.IH)
  then show ?case using st by (simp add: placeAll_def)
qed

text \<open>
  C9. On a level whose descriptor omits \<open>maxActiveBombs\<close> (the built-in defaults define
  none) there is no active-bomb cap, in the loaded state and in every state that
  placements and turns lead to: \<open>placeBomb\<close> appends the bomb exactly when the cell can
  take one and the bombs placed on this turn are fewer than \<open>maxBombsPerTurn\<close>, and
  changes nothing otherwise, however many bombs are on the board; and any list of
  placeable cells that fits into what is left of this turn's limit is accepted whole.
\<close>

theorem placeBomb_without_active_cap:
  assumes "omitsMaxActiveBombs d" and "played d s" and "level_ok (level s)"
  shows "maxActiveBombs DEFAULT_CONFIG = None \<and> maxActiveBombs (config (level s)) = None
       \<and> placeBomb s p =
           (if canPlaceBomb (level s) p
               \<and> int (length (filter (\<lambda>b. b_turnPlaced b = turnIndex s) (bombs s)))
                   < maxBombsPerTurn (config (level s))
            then (True, s\<lparr> bombs := bombs s @ [newBomb (bombIdCounter s) p
                                           (timersAllowed (config (level s))) (turnIndex s)],
                     bombIdCounter := Suc (bombIdCounter s) \<rparr>)
            else (False, s))
       \<and> (list_all (canPlaceBomb (level s)) ps
            \<and> int (length (filter (\<lambda>b. b_turnPlaced b = turnIndex s) (bombs s)) + length ps)
                \<le> maxBombsPerTurn (config (level s))
           \<longrightarrow> length (bombs (placeAll ps s)) = length (bombs s) + length ps)"
proof -
  have c: "config (level s) = mergeConfig (ld_config d)" using assms(2) by (rule played_config)
  have m: "maxActiveBombs (config (level s)) = None"
    using assms(1) unfolding c omitsMaxActiveBombs_def mergeConfig_def DEFAULT_CONFIG_def
    by (simp split: option.splits)
  have d0: "maxActiveBombs DEFAULT_CONFIG = None" by (simp add: DEFAULT_CONFIG_def)
  show ?thesis using d0 m placeBomb_uncapped[OF m, of p] placeAll_uncapped[OF m, of ps] by simp
qed

text \<open>
  An instance: after two turns of the play four bombs are ticking; the fifth and the sixth
  are accepted, and a seventh is refused by the limit of two per turn.
\<close>

theorem placeBomb_without_active_cap_witness:
  "omitsMaxActiveBombs (roomData None) \<and> played (roomData None) uncappedPlay
   \<and> level_ok (level uncappedPlay) \<and> turnIndex uncappedPlay = 2 \<and> gameState uncappedPlay = PLAYING
   \<and> length (bombs uncappedPlay) = 4
   \<and> fst (placeBomb uncappedPlay (Vec 1 2))
   \<and> length (bombs (placeAll [Vec 1 2, Vec 0 2] uncappedPlay)) = 6
   \<and> \<not> fst (placeBomb (placeAll [Vec 1 2, Vec 0 2] uncappedPlay) (Vec 2 1))"
proof -
  let ?d = "roomData None"
  let ?s0 = "roomGame None [] 0"
  let ?a = "placeAll [Vec 2 0, Vec 1 0] ?s0"
  let ?s1 = "afterTurn ?a"
  let ?b = "placeAll [Vec 2 1, Vec 1 1] ?s1"
  let ?c = "placeAll [Vec 1 2, Vec 0 2] uncappedPlay"
  have h1: "omitsMaxActiveBombs ?d"
    by (simp add: omitsMaxActiveBombs_def roomData_def roomConfig_def)
  have "loadLevel ?d = Inr ?s0" by (simp add: loadLevel_def newLevel_room roomGame_def)
  then have p0: "played ?d ?s0" by (rule played.loaded)
  have pa: "played ?d (placeAll [p, q] t)" if "played ?d t" for p q t
    unfolding placeAll_def using that by (simp add: played.placed)
  have t1: "simulateTurn ?a = Inr ?s1" by code_simp
  have p1: "played ?d ?s1" using pa[OF p0] t1 by (rule played.turned)
  have t2: "simulateTurn ?b = Inr uncappedPlay" by code_simp
  have p2: "played ?d uncappedPlay" using pa[OF p1] t2 by (rule played.turned)
  have p3: "played ?d ?c" using p2 by (rule pa)
  have h3: "level_ok (level uncappedPlay)" and h4: "level_ok (level ?c)" by code_simp+
  have e: "turnIndex uncappedPlay = 2 \<and> gameState uncappedPlay = PLAYING \<and> length (bombs uncappedPlay) = 4"
    by code_simp
  have c1: "canPlaceBomb (level uncappedPlay) (Vec 1 2)
      \<and> int (length (filter (\<lambda>b. b_turnPlaced b = turnIndex uncappedPlay) (bombs uncappedPlay)))
          < maxBombsPerTurn (config (level uncappedPlay))" by code_simp
  have c2: "list_all (canPlaceBomb (level uncappedPlay)) [Vec 1 2, Vec 0 2]
      \<and> int (length (filter (\<lambda>b. b_turnPlaced b = turnIndex uncappedPlay) (bombs uncappedPlay))
             + length [Vec 1 2, Vec 0 2]) \<le> maxBombsPerTurn (config (level uncappedPlay))"
    by code_simp
  have c3: "\<not> (canPlaceBomb (level ?c) (Vec 2 1)
      \<and> int (length (filter (\<lambda>b. b_turnPlaced b = turnIndex ?c) (bombs ?c)))
          < maxBombsPerTurn (config (level ?c)))" by code_simp
  note w = placeBomb_without_active_cap[OF h1 p2 h3, of "Vec 1 2" "[Vec 1 2, Vec 0 2]"]
  note v = placeBomb_without_active_cap[OF h1 p3 h4, of "Vec 2 1" "[]"]
  have f1: "fst (placeBomb uncappedPlay (Vec 1 2))" using w c1 by simp
  have f2: "length (bombs ?c) = 6" using w c2 e by simp
  have f3: "\<not> fst (placeBomb ?c (Vec 2 1))" using v c3 by simp
  show ?thesis using h1 p2 h3 e f1 f2 f3 by simp
qed


text \<open>
  C6 as stated fails: a cell that already holds a bomb is not refused. In the room with
  \<open>maxActiveBombs = 4\<close> and two placements per turn, a second bomb goes onto the cell of
  the first.
\<close>

theorem placeBomb_on_bomb_counterexample:
  "occupiedByBomb (snd (placeBomb (roomGame (Some 4) [] 0) (Vec 1 1))) (Vec 1 1)
   \<and> fst (placeBomb (snd (placeBomb (roomGame (Some 4) [] 0) (Vec 1 1))) (Vec 1 1))
   \<and> length (bombs (snd (placeBomb (snd (placeBomb (roomGame (Some 4) [] 0) (Vec 1 1))) (Vec 1 1)))) = 2"
  by code_simp

text \<open>
  C6, amended. \<open>placeBomb\<close> refuses, leaving the state as it was, exactly when the
  position is out of bounds or not Floor, or holds an undestroyed target or a guard, or
  \<open>maxActiveBombs\<close> is defined and the number of bombs has reached it, or this turn's
  placements have reached \<open>maxBombsPerTurn\<close>; in every other case it succeeds and appends
  exactly one bomb at the position. A bomb already on the cell is no ground for refusal.
\<close>

theorem placeBomb_rejection:
  assumes "level_ok (level s)"
  shows "placeBomb s p =
           (if placementRejected s p then (False, s)
            else (True, s\<lparr> bombs := bombs s @ [newBomb (bombIdCounter s) p
                                           (timersAllowed (config (level s))) (turnIndex s)],
                     bombIdCounter := Suc (bombIdCounter s) \<rparr>))
         \<and> length (bombs (snd (placeBomb s p)))
             = (if placementRejected s p then length (bombs s) else length (bombs s) + 1)"
  by (auto simp: placeBomb_def placementRejected_def canPlaceBomb_def ge_maybe_def split: option.splits)

text \<open>
  Instances: in the crowded room with cap 4 the placement is refused and nothing changes;
  in the empty room it is accepted.
\<close>

theorem placeBomb_rejection_witness:
  "level_ok (level (crowdedRoom (Some 4))) \<and> placementRejected (crowdedRoom (Some 4)) (Vec 1 1)
   \<and> placeBomb (crowdedRoom (Some 4)) (Vec 1 1) = (False, crowdedRoom (Some 4))
   \<and> level_ok (level (roomGame (Some 4) [] 0)) \<and> \<not> placementRejected (roomGame (Some 4) [] 0) (Vec 1 1)
   \<and> bombs (snd (placeBomb (roomGame (Some 4) [] 0) (Vec 1 1))) = [newBomb 0 (Vec 1 1) True 0]"
proof -
  have h1: "level_ok (level (crowdedRoom (Some 4)))"
    by (simp add: crowdedRoom_def roomGame_def level_ok_room)
  have r1: "placementRejected (crowdedRoom (Some 4)) (Vec 1 1)" by code_simp
  have h2: "level_ok (level (roomGame (Some 4) [] 0))" by (simp add: roomGame_def level_ok_room)
  have r2: "\<not> placementRejected (roomGame (Some 4) [] 0) (Vec 1 1)" by code_simp
  have t: "timersAllowed (config (level (roomGame (Some 4) [] 0)))"
      "bombIdCounter (roomGame (Some 4) [] 0) = 0" "turnIndex (roomGame (Some 4) [] 0) = 0"
      "bombs (roomGame (Some 4) [] 0) = []"
    by (simp_all add: roomGame_def roomLevel_def)
  from placeBomb_rejection[OF h1, of "Vec 1 1"] placeBomb_rejection[OF h2, of "Vec 1 1"] h1 h2 r1 r2 t
  show ?thesis by simp
qed

section \<open>Loading: claims\<close>

text \<open>
  C7 as stated fails: the descriptor \<open>wallGuardData\<close> puts its guard on a Wall cell, and
  \<open>loadLevel\<close> returns a playable game with the guard standing there.
\<close>

theorem loadLevel_guard_on_wall_counterexample:
  "loadLevel wallGuardData = Inr wallGuardGame
   \<and> tileAt (level wallGuardGame) (Vec 0 0) = Some WALL
   \<and> map g_pos (guards (level wallGuardGame)) = [Vec 0 0]"
  by (simp add: loadLevel_def newLevel_def wallGuardData_def wallGuardGame_def mergeConfig_def override_def
      DEFAULT_CONFIG_def createEmptyGrid_def or_default_def MAX_GRID_SIZE_def copyGrid_def
      copyGridStep_def copyRow_def indexed_def newTarget_def newGuard_def Let_def tileAt_def
      numeral_2_eq_2 upt_rec)

text \<open>
  C7, amended. \<open>loadLevel\<close> fails the load attempt when the descriptor has no array of
  targets or no array of guards. It does not compare positions with the grid: a
  descriptor that has both arrays and a \<open>gridSize\<close> of at most 64 loads, with every guard
  and every target at the position the descriptor gives, whatever tile is there.
\<close>

theorem loadLevel_checks:
  "(ld_targets d = None \<or> ld_guards d = None \<longrightarrow> loadLevel d = Inl TypeError)
   \<and> (ld_targets d = Some ts \<and> ld_guards d = Some gs \<and> gridSize (mergeConfig (ld_config d)) \<le> MAX_GRID_SIZE
      \<longrightarrow> (\<exists>s. loadLevel d = Inr s
               \<and> map g_pos (guards (level s)) = map (\<lambda>g. Vec (gd_x g) (gd_y g)) gs
               \<and> map t_pos (targets (level s)) = map (\<lambda>t. Vec (td_x t) (td_y t)) ts
               \<and> level_ok (level s)))"
proof (intro conjI impI)
  assume "ld_targets d = None \<or> ld_guards d = None"
  then show "loadLevel d = Inl TypeError"
    by (auto simp: loadLevel_def newLevel_def Let_def split: sum.splits option.splits)
next
  let ?c = "mergeConfig (ld_config d)"
  assume a: "ld_targets d = Some ts \<and> ld_guards d = Some gs \<and> gridSize ?c \<le> MAX_GRID_SIZE"
  have len: "nat (gridSize ?c) \<le> length (createEmptyGrid ?c)"
    using a by (auto simp: createEmptyGrid_def Let_def or_default_def MAX_GRID_SIZE_def DEFAULT_CONFIG_def)
  obtain g where g: "(case ld_grid d of None \<Rightarrow> Inr (createEmptyGrid ?c)
                      | Some src \<Rightarrow> copyGrid src (gridSize ?c) (createEmptyGrid ?c)) = Inr g"
      and lg: "length g = length (createEmptyGrid ?c)"
  proof (cases "ld_grid d")
    case None
    then show ?thesis using that by simp
  next
    case (Some src)
    from a copyGrid_ok[of ?c src] obtain g' where "copyGrid src (gridSize ?c) (createEmptyGrid ?c) = Inr g'"
      "length g' = length (createEmptyGrid ?c)" by blast
    then show ?thesis using that Some by simp
  qed
  let ?l = "\<lparr> config = ?c, grid = g, targets = indexed newTarget ts, guards = indexed (newGuard ?c) gs \<rparr>"
  have "newLevel d = Inr ?l" using a g by (simp add: newLevel_def Let_def)
  then have "loadLevel d = Inr \<lparr> level = ?l, bombs = [], turnIndex = 0, gameState = PLAYING, bombIdCounter = 0 \<rparr>"
    by (simp add: loadLevel_def)
  moreover have "level_ok ?l" using len lg by (simp add: level_ok_def)
  ultimately show "\<exists>s. loadLevel d = Inr s
               \<and> map g_pos (guards (level s)) = map (\<lambda>g. Vec (gd_x g) (gd_y g)) gs
               \<and> map t_pos (targets (level s)) = map (\<lambda>t. Vec (td_x t) (td_y t)) ts
               \<and> level_ok (level s)"
    by (simp add: map_pos_guards map_pos_targets)
qed

text \<open>
  Instances: the room without its array of guards does not load; the level with the guard
  on the Wall does.
\<close>

theorem loadLevel_checks_witness:
  "ld_guards ((roomData None)\<lparr> ld_guards := None \<rparr>) = None
   \<and> loadLevel ((roomData None)\<lparr> ld_guards := None \<rparr>) = Inl TypeError
   \<and> gridSize (mergeConfig (ld_config wallGuardData)) \<le> MAX_GRID_SIZE
   \<and> (\<exists>s. loadLevel wallGuardData = Inr s \<and> map g_pos (guards (level s)) = [Vec 0 0]
          \<and> map t_pos (targets (level s)) = [Vec 1 1] \<and> level_ok (level s))"
proof -
  have h1: "ld_guards ((roomData None)\<lparr> ld_guards := None \<rparr>) = None" by simp
  have h2: "ld_targets wallGuardData = Some [\<lparr> td_x = 1, td_y = 1 \<rparr>]
            \<and> ld_guards wallGuardData = Some [\<lparr> gd_x = 0, gd_y = 0, gd_hearingRadius = Some 8 \<rparr>]
            \<and> gridSize (mergeConfig (ld_config wallGuardData)) \<le> MAX_GRID_SIZE"
    by (simp add: wallGuardData_def mergeConfig_def override_def MAX_GRID_SIZE_def)
  from loadLevel_checks[of "(roomData None)\<lparr> ld_guards := None \<rparr>"]
       loadLevel_checks[of wallGuardData "[\<lparr> td_x = 1, td_y = 1 \<rparr>]"
                           "[\<lparr> gd_x = 0, gd_y = 0, gd_hearingRadius = Some 8 \<rparr>]"] h1 h2
  show ?thesis by simp
qed



section \<open>Blast\<close>

lemma withinRadius_bounds:
  assumes "withinRadius dx dy r"
  shows "- r \<le> dx \<and> dx \<le> r \<and> - r \<le> dy \<and> dy \<le> r"
proof -
  from assms have r: "0 \<le> r" and s: "dx * dx + dy * dy \<le> r * r" by (simp_all add: withinRadius_def)
  have "dx * dx \<le> r * r" using s zero_le_square[of dy] by linarith
  then have "dx\<^sup>2 \<le> r\<^sup>2" by (simp add: power2_eq_square)
  then have x: "\<bar>dx\<bar> \<le> \<bar>r\<bar>" by (simp add: abs_le_square_iff)
  have "dy * dy \<le> r * r" using s zero_le_square[of dx] by linarith
  then have "dy\<^sup>2 \<le> r\<^sup>2" by (simp add: power2_eq_square)
  then have y: "\<bar>dy\<bar> \<le> \<bar>r\<bar>" by (simp add: abs_le_square_iff)
  from x y r show ?thesis by linarith
qed

lemma set_calculateCircularBlast:
  "set (calculateCircularBlast l b r) =
     {p. withinRadius (vx p - vx b) (vy p - vy b) r \<and> isValidPosition l p \<and> hasLineOfSight l b p}"
proof (rule set_eqI)
  fix p
  obtain x y where p: "p = Vec x y" by (cases p)
  show "p \<in> set (calculateCircularBlast l b r) \<longleftrightarrow>
        p \<in> {p. withinRadius (vx p - vx b) (vy p - vy b) r \<and> isValidPosition l p \<and> hasLineOfSight l b p}"
    unfolding p calculateCircularBlast_def
    using withinRadius_bounds[of "x - vx b" "y - vy b" r]
    by (auto intro!: bexI[of _ x])
qed

text \<open>
  C3 as stated fails: in the open room, with \<open>blastRange = 3\<close> and the bomb in the centre,
  the computed blast holds the diagonal neighbour \<open>(2, 2)\<close>, which no ray of the cross
  reaches, and lacks \<open>(6, 3)\<close>, the third cell of the east ray.
\<close>

theorem blast_is_not_cross_counterexample:
  "Vec 2 2 \<in> set (calculateBlastTiles openRoom (Vec 3 3))
   \<and> Vec 2 2 \<notin> orthogonalCross openRoom (Vec 3 3) (blastRange (config openRoom))
   \<and> Vec 6 3 \<notin> set (calculateBlastTiles openRoom (Vec 3 3))
   \<and> Vec 6 3 \<in> orthogonalCross openRoom (Vec 3 3) (blastRange (config openRoom))"
  by code_simp

text \<open>
  C3, amended. For every bomb position, on a level whose rows all exist and with
  \<open>blastRange\<close> at most 22 (where the rounding of the source is exact), the blast is the
  set of in-bounds cells at Euclidean distance at most \<open>max(1, blastRange - 1)\<close> from the
  bomb that have line of sight to it: no Wall on a sampled cell strictly between the two.
  It is a disc, not a cross; the tile of the cell itself is not tested.
\<close>

theorem blast_is_disc:
  assumes "level_ok l" and "blastRange (config l) \<le> 22"
  shows "set (calculateBlastTiles l b) =
     {p. withinRadius (vx p - vx b) (vy p - vy b) (max 1 (blastRange (config l) - 1))
         \<and> isValidPosition l p \<and> hasLineOfSight l b p}"
  unfolding calculateBlastTiles_def by (rule set_calculateCircularBlast)

text \<open>An instance: the diagonal neighbour of a bomb in the open room is in its blast.\<close>

theorem blast_is_disc_witness:
  "level_ok openRoom \<and> blastRange (config openRoom) \<le> 22
   \<and> Vec 2 2 \<in> set (calculateBlastTiles openRoom (Vec 3 3))"
proof -
  have h1: "level_ok openRoom" by (simp add: level_ok_def openRoom_def)
  have h2: "blastRange (config openRoom) \<le> 22" by (simp add: openRoom_def DEFAULT_CONFIG_def)
  have e: "withinRadius (vx (Vec 2 2) - vx (Vec 3 3)) (vy (Vec 2 2) - vy (Vec 3 3))
             (max 1 (blastRange (config openRoom) - 1))
           \<and> isValidPosition openRoom (Vec 2 2) \<and> hasLineOfSight openRoom (Vec 3 3) (Vec 2 2)"
    by code_simp
  from blast_is_disc[OF h1 h2, of "Vec 3 3"] e h1 h2 show ?thesis by simp
qed

text \<open>
  C8 as stated fails: the blast of the bomb at \<open>x = 2\<close> of the open corridor is not the
  set of the five corridor cells; it holds the Void cell \<open>(2, 1)\<close> below the bomb as well.
\<close>

theorem corridor_blast_counterexample:
  "newLevel (corridorData [FLOOR, FLOOR, FLOOR, FLOOR, FLOOR])
     = Inr (corridorLevel [FLOOR, FLOOR, FLOOR, FLOOR, FLOOR])
   \<and> Vec 2 1 \<in> set (calculateBlastTiles (corridorLevel [FLOOR, FLOOR, FLOOR, FLOOR, FLOOR]) (Vec 2 0))
   \<and> set (calculateBlastTiles (corridorLevel [FLOOR, FLOOR, FLOOR, FLOOR, FLOOR]) (Vec 2 0))
       \<noteq> {Vec 0 0, Vec 1 0, Vec 2 0, Vec 3 0, Vec 4 0}"
  by code_simp

text \<open>
  C8, amended. In the corridor with the bomb at \<open>x = 2\<close> and \<open>blastRange = 3\<close>, the cells
  of the blast on the corridor's row are exactly \<open>x = 0..4\<close> without walls, and exactly
  \<open>x = 0..3\<close> with a Wall at \<open>x = 3\<close> (the Wall cell itself included, the cell behind it
  shielded). In both cases the blast also holds the in-bounds Void cells \<open>(1, 1)\<close>,
  \<open>(2, 1)\<close>, \<open>(2, 2)\<close> and \<open>(3, 1)\<close> below the corridor.
\<close>

theorem corridor_blast:
  "calculateBlastTiles (corridorLevel [FLOOR, FLOOR, FLOOR, FLOOR, FLOOR]) (Vec 2 0)
     = [Vec 0 0, Vec 1 0, Vec 1 1, Vec 2 0, Vec 2 1, Vec 2 2, Vec 3 0, Vec 3 1, Vec 4 0]
   \<and> filter (\<lambda>p. vy p = 0) (calculateBlastTiles (corridorLevel [FLOOR, FLOOR, FLOOR, FLOOR, FLOOR]) (Vec 2 0))
     = [Vec 0 0, Vec 1 0, Vec 2 0, Vec 3 0, Vec 4 0]
   \<and> newLevel (corridorData [FLOOR, FLOOR, FLOOR, WALL, FLOOR])
     = Inr (corridorLevel [FLOOR, FLOOR, FLOOR, WALL, FLOOR])
   \<and> calculateBlastTiles (corridorLevel [FLOOR, FLOOR, FLOOR, WALL, FLOOR]) (Vec 2 0)
     = [Vec 0 0, Vec 1 0, Vec 1 1, Vec 2 0, Vec 2 1, Vec 2 2, Vec 3 0, Vec 3 1]
   \<and> filter (\<lambda>p. vy p = 0) (calculateBlastTiles (corridorLevel [FLOOR, FLOOR, FLOOR, WALL, FLOOR]) (Vec 2 0))
     = [Vec 0 0, Vec 1 0, Vec 2 0, Vec 3 0]"
  by code_simp

section \<open>Movement\<close>

text \<open>
  C1 fails on the code. In the corridor, the guards stand on the distinct Floor cells
  \<open>(1, 0)\<close> and \<open>(2, 0)\<close>; a timed bomb is placed at \<open>(0, 0)\<close> and both guards walk towards
  its ticking. The turn ends with both guards on \<open>(1, 0)\<close>, the game still playing: the
  first guard is held back because the second proposes its cell, and the second moves in.
\<close>

theorem guards_overlap_after_turn:
  "loadLevel followData = Inr followGame
   \<and> map g_pos (guards (level followGame)) = [Vec 1 0, Vec 2 0]
   \<and> isPassable (level followGame) (Vec 1 0) \<and> isPassable (level followGame) (Vec 2 0)
   \<and> fst (placeBomb followGame (Vec 0 0))
   \<and> map_sum id (\<lambda>s. (map g_pos (guards (level s)), gameState s))
        (simulateTurn (snd (placeBomb followGame (Vec 0 0))))
       = Inr ([Vec 1 0, Vec 1 0], PLAYING)"
  by code_simp

text \<open>
  C2 fails on the code. With the guards of the corridor and the proposals of that turn,
  the arbiter puts both guards on \<open>(1, 0)\<close> when it meets guard 0 first, and leaves guard 1
  at \<open>(2, 0)\<close> when it meets guard 1 first. With two guards proposing each other's cell,
  guard 1 ends on guard 0's cell in the one order and stays in the other.
\<close>

theorem arbiter_depends_on_order:
  "map_sum id (map g_pos) (resolveMovementConflicts followGuards [(0, Vec 0 0), (1, Vec 1 0)])
     = Inr [Vec 1 0, Vec 1 0]
   \<and> map_sum id (map g_pos) (resolveMovementConflicts followGuards [(1, Vec 1 0), (0, Vec 0 0)])
     = Inr [Vec 1 0, Vec 2 0]
   \<and> map_sum id (map g_pos) (resolveMovementConflicts swapGuards [(0, Vec 1 0), (1, Vec 0 0)])
     = Inr [Vec 0 0, Vec 0 0]
   \<and> map_sum id (map g_pos) (resolveMovementConflicts swapGuards [(1, Vec 0 0), (0, Vec 1 0)])
     = Inr [Vec 0 0, Vec 1 0]"
  by code_simp

section \<open>Guard policy: claims\<close>

lemma set_insertBy: "set (insertBy cmp x ys) = insert x (set ys)"
  by (induction ys) auto

lemma set_sortBy: "set (sortBy cmp xs) = set xs"
  by (induction xs) (auto simp: set_insertBy)

lemma hd_insertBy: "hd (insertBy cmp x ys) = (if ys = [] \<or> cmp x (hd ys) \<le> 0 then x else hd ys)"
  by (cases ys) auto

lemma sortBy_Nil_iff: "sortBy cmp xs = [] \<longleftrightarrow> xs = []"
  by (metis length_0_conv length_sortBy)




















section \<open>Path distance\<close>

lemma Vec_equals_iff: "Vec_equals a b = (a = b)"
  by (cases a; cases b) (simp add: Vec_equals_def)

lemma heuristic_step: "step l u v \<Longrightarrow> manhattanDistance u e \<le> 1 + manhattanDistance v e"
  by (auto simp: step_def directions_def neighbor_def manhattanDistance_def)

lemma reach_trans_step: "reach l x w n \<Longrightarrow> manhattanDistance x e \<le> n + manhattanDistance w e"
proof (induction rule: reach.induct)
  case reach0
  show ?case by simp
next
  case (reachS u n v)
  from heuristic_step[OF reachS.hyps(2), of e] reachS.IH show ?case by simp
qed

lemma frontier:
  assumes inv: "searchInv l s e openSet closedSet gs"
  shows "reach l s w m \<Longrightarrow> w \<notin> set closedSet \<Longrightarrow>
         \<exists>x \<in> set openSet. \<exists>j \<le> m. n_g x \<le> j \<and> reach l (n_pos x) w (m - j)"
proof (induction rule: reach.induct)
  case reach0
  from inv reach0 obtain n where "openSet = [n]" "n_pos n = s" "n_g n = 0"
    by (auto simp: searchInv_def)
  then show ?case by (auto intro: reach.reach0)
next
  case (reachS u n v)
  show ?case
  proof (cases "u \<in> set closedSet")
    case False
    from reachS.IH[OF False] obtain x j where x: "x \<in> set openSet" "j \<le> n" "n_g x \<le> j"
      "reach l (n_pos x) u (n - j)" by blast
    have "reach l (n_pos x) v (Suc (n - j))" using x(4) reachS.hyps(2) by (rule reach.reachS)
    moreover have "Suc (n - j) = Suc n - j" using x(2) by simp
    ultimately show ?thesis using x by (intro bexI[of _ x] exI[of _ j]) auto
  next
    case True
    from inv True have "closedOk l s openSet closedSet u" by (simp add: searchInv_def)
    then obtain k where k: "shortest l s u k" "\<forall>v. step l u v \<longrightarrow> boundAt openSet closedSet v (k + 1)"
      by (auto simp: closedOk_def)
    have kn: "k \<le> n" using k(1) reachS.hyps(1) by (simp add: shortest_def)
    from k(2) reachS.hyps(2) reachS.prems obtain x where x: "x \<in> set openSet" "n_pos x = v" "n_g x \<le> k + 1"
      by (auto simp: boundAt_def)
    have "reach l (n_pos x) v (Suc n - Suc n)" by (simp add: x(2) reach.reach0)
    then show ?thesis using x kn by (intro bexI[of _ x] exI[of _ "Suc n"]) auto
  qed
qed

lemma pop_is_shortest:
  assumes inv: "searchInv l s e openSet closedSet gs"
    and c: "current \<in> set openSet"
    and least: "\<forall>n \<in> set openSet. n_f current \<le> n_f n"
  shows "shortest l s (n_pos current) (n_g current)"
proof -
  from inv c have r: "reach l s (n_pos current) (n_g current)"
      and f: "n_f current = n_g current + manhattanDistance (n_pos current) e"
      and nc: "n_pos current \<notin> set closedSet"
    by (auto simp: searchInv_def openOk_def)
  have "n_g current \<le> m" if m: "reach l s (n_pos current) m" for m
  proof -
    from frontier[OF inv m nc] obtain x j where x: "x \<in> set openSet" "j \<le> m" "n_g x \<le> j"
      "reach l (n_pos x) (n_pos current) (m - j)" by blast
    from inv x(1) have fx: "n_f x = n_g x + manhattanDistance (n_pos x) e"
      by (auto simp: searchInv_def openOk_def)
    from reach_trans_step[OF x(4), of e]
    have "manhattanDistance (n_pos x) e \<le> (m - j) + manhattanDistance (n_pos current) e" .
    moreover have "n_f current \<le> n_f x" using least x(1) by blast
    ultimately show ?thesis using f fx x(2,3) by linarith
  qed
  with r show ?thesis by (simp add: shortest_def)
qed

lemma closed_all_reachable:
  assumes inv: "searchInv l s e [] closedSet gs"
  shows "reach l s v n \<Longrightarrow> v \<in> set closedSet"
proof (induction rule: reach.induct)
  case reach0
  from inv show ?case by (auto simp: searchInv_def)
next
  case (reachS u n v)
  from inv reachS.IH have "closedOk l s [] closedSet u" by (simp add: searchInv_def)
  with reachS.hyps(2) show ?case by (auto simp: closedOk_def boundAt_def)
qed


lemma distinct_map_insertBy:
  "distinct (map f (insertBy cmp x ys)) = (f x \<notin> f ` set ys \<and> distinct (map f ys))"
  by (induction ys) (auto simp: set_insertBy)

lemma distinct_map_sortBy: "distinct (map f (sortBy cmp xs)) = distinct (map f xs)"
  by (induction xs) (auto simp: distinct_map_insertBy set_sortBy)

lemma hd_sortBy_key:
  fixes key :: "'a \<Rightarrow> nat"
  assumes le: "\<And>a b. cmp a b \<le> 0 \<Longrightarrow> key a \<le> key b"
    and gt: "\<And>a b. \<not> cmp a b \<le> 0 \<Longrightarrow> key b \<le> key a"
  shows "xs \<noteq> [] \<Longrightarrow> \<forall>c \<in> set xs. key (hd (sortBy cmp xs)) \<le> key c"
proof (induction xs)
  case Nil
  then show ?case by simp
next
  case (Cons x xs)
  show ?case
  proof (cases "xs = []")
    case True
    then show ?thesis by simp
  next
    case False
    then have ne: "sortBy cmp xs \<noteq> []" by (simp add: sortBy_Nil_iff)
    let ?h = "hd (sortBy cmp xs)"
    have ih: "\<forall>c \<in> set xs. key ?h \<le> key c" using Cons.IH[OF False] .
    show ?thesis
    proof (cases "cmp x ?h \<le> 0")
      case True
      then have hd: "hd (sortBy cmp (x # xs)) = x" by (simp add: hd_insertBy)
      have "key x \<le> key ?h" using True by (rule le)
      then have "\<forall>c \<in> set xs. key x \<le> key c" using ih by (meson order_trans)
      then show ?thesis unfolding hd by simp
    next
      case f: False
      then have hd: "hd (sortBy cmp (x # xs)) = ?h" using ne by (simp add: hd_insertBy)
      have "key ?h \<le> key x" using f by (rule gt)
      then show ?thesis unfolding hd using ih by simp
    qed
  qed
qed

lemma sortOpenP_props:
  assumes ne: "openSet \<noteq> []" and d: "distinct (map n_pos openSet)"
  shows "set openSet = insert (hd (sortOpenP e openSet)) (set (tl (sortOpenP e openSet)))"
    and "n_pos (hd (sortOpenP e openSet)) \<notin> n_pos ` set (tl (sortOpenP e openSet))"
    and "distinct (map n_pos (tl (sortOpenP e openSet)))"
    and "\<forall>n \<in> set openSet. n_f (hd (sortOpenP e openSet)) \<le> n_f n"
proof -
  let ?s = "sortOpenP e openSet"
  have sne: "?s \<noteq> []" using ne by (simp add: sortOpenP_def sortBy_Nil_iff)
  then have c: "?s = hd ?s # tl ?s" by simp
  have "set ?s = set openSet" by (simp add: sortOpenP_def set_sortBy)
  with c show "set openSet = insert (hd ?s) (set (tl ?s))" by (metis list.simps(15))
  have "distinct (map n_pos ?s)" using d by (simp add: sortOpenP_def distinct_map_sortBy)
  then have "distinct (map n_pos (hd ?s # tl ?s))" using c by simp
  then show "n_pos (hd ?s) \<notin> n_pos ` set (tl ?s)" and "distinct (map n_pos (tl ?s))" by simp_all
  show "\<forall>n \<in> set openSet. n_f (hd ?s) \<le> n_f n"
    unfolding sortOpenP_def
    by (rule hd_sortBy_key[OF _ _ ne]) (auto simp: compareOpen_def Let_def split: if_splits)
qed


lemma searchInvD:
  assumes "searchInv l s e openSet closedSet gs"
  shows "openOk l s e closedSet gs openSet" and "distinct (map n_pos openSet)" and "e \<notin> set closedSet"
    and "\<forall>u \<in> set closedSet. closedOk l s openSet closedSet u"
    and "s \<in> set closedSet \<or> (\<exists>n. openSet = [n] \<and> n_pos n = s \<and> n_g n = 0)"
    and "scoreOk openSet closedSet gs" and "\<forall>v. gs v = Some 0 \<longrightarrow> v = s"
  using assms by (simp_all add: searchInv_def)

lemma relaxInvD:
  assumes "relaxInv l s e current closedSet seen st"
  shows "openOk l s e closedSet (snd st) (fst st)" and "distinct (map n_pos (fst st))"
    and "e \<notin> set closedSet" and "s \<in> set closedSet" and "n_pos current \<in> set closedSet"
    and "\<forall>u \<in> set closedSet. u \<noteq> n_pos current \<longrightarrow> closedOk l s (fst st) closedSet u"
    and "shortest l s (n_pos current) (n_g current)"
    and "\<forall>d \<in> seen. isPassable l (neighbor (n_pos current) d)
            \<longrightarrow> boundAt (fst st) closedSet (neighbor (n_pos current) d) (n_g current + 1)"
    and "scoreOk (fst st) closedSet (snd st)" and "\<forall>v. snd st v = Some 0 \<longrightarrow> v = s"
  using assms by (simp_all add: relaxInv_def)

lemma relax_start:
  assumes inv: "searchInv l s e openSet closedSet gs"
    and ne: "openSet \<noteq> []"
    and cur: "current = hd (sortOpenP e openSet)"
    and rest: "rest = tl (sortOpenP e openSet)"
    and goal: "n_pos current \<noteq> e"
  shows "relaxInv l s e current (n_pos current # closedSet) {} (rest, gs)"
proof -
  note i = searchInvD[OF inv]
  from sortOpenP_props[OF ne i(2), of e]
  have so: "set openSet = insert current (set rest)"
    and cn: "n_pos current \<notin> n_pos ` set rest"
    and dr: "distinct (map n_pos rest)"
    and least: "\<forall>n \<in> set openSet. n_f current \<le> n_f n"
    unfolding cur rest by blast+
  have cin: "current \<in> set openSet" using so by simp
  have sh: "shortest l s (n_pos current) (n_g current)"
    using inv cin least by (rule pop_is_shortest)
  have oo: "openOk l s e (n_pos current # closedSet) gs rest"
    using i(1) so cn by (auto simp: openOk_def image_iff)
  have ss: "s \<in> set (n_pos current # closedSet)"
  proof (cases "s \<in> set closedSet")
    case True then show ?thesis by simp
  next
    case False
    with i(5) obtain n where "openSet = [n]" "n_pos n = s" by auto
    with cin show ?thesis by simp
  qed
  have bd: "boundAt rest (n_pos current # closedSet) v b" if "boundAt openSet closedSet v b" for v b
    using that so unfolding boundAt_def by auto
  have co: "closedOk l s rest (n_pos current # closedSet) u" if "u \<in> set closedSet" for u
  proof -
    from i(4) that have "closedOk l s openSet closedSet u" by blast
    then show ?thesis unfolding closedOk_def using bd by blast
  qed
  then have co': "\<forall>u \<in> set (n_pos current # closedSet). u \<noteq> n_pos current
      \<longrightarrow> closedOk l s rest (n_pos current # closedSet) u" by simp
  have sc: "scoreOk rest (n_pos current # closedSet) gs"
    using i(6) so unfolding scoreOk_def by auto
  have ec: "e \<notin> set (n_pos current # closedSet)" using i(3) goal by auto
  show ?thesis
    unfolding relaxInv_def using oo dr ec ss co' sh sc i(7) by simp
qed

lemma set_removeFirst:
  "distinct (map f xs) \<Longrightarrow> set (removeFirst (\<lambda>x. f x = a) xs) = {x \<in> set xs. f x \<noteq> a}"
  by (induction xs) (auto simp: image_iff)

lemma distinct_removeFirst:
  "distinct (map f xs) \<Longrightarrow> distinct (map f (removeFirst (\<lambda>x. f x = a) xs))"
  by (induction xs) (auto simp: set_removeFirst)

lemma relax_end:
  assumes r: "relaxInv l s e current closedSet (set directions) st"
  shows "searchInv l s e (fst st) closedSet (snd st)"
proof -
  note i = relaxInvD[OF r]
  have "boundAt (fst st) closedSet v (n_g current + 1)" if "step l (n_pos current) v" for v
    using i(8) that unfolding step_def by auto
  then have "closedOk l s (fst st) closedSet (n_pos current)"
    using i(7) unfolding closedOk_def by blast
  then have c: "\<forall>u \<in> set closedSet. closedOk l s (fst st) closedSet u"
    using i(6) by metis
  show ?thesis unfolding searchInv_def using i(1,2,3,4,9,10) c by simp
qed


lemma relax_step:
  assumes r: "relaxInv l s e current closedSet seen st" and d: "d \<in> set directions"
  shows "relaxInv l s e current closedSet (insert d seen) (relaxP l e current closedSet d st)"
proof -
  note i = relaxInvD[OF r]
  let ?nb = "neighbor (n_pos current) d"
  let ?t = "n_g current + 1"
  let ?new = "\<lparr> n_pos = ?nb, n_g = ?t, n_f = ?t + manhattanDistance ?nb e \<rparr>"
  let ?open' = "removeFirst (\<lambda>item. n_pos item = ?nb) (fst st) @ [?new]"
  let ?gs' = "(snd st)(?nb \<mapsto> ?t)"
  have same: "relaxInv l s e current closedSet (insert d seen) st"
    if b: "isPassable l ?nb \<longrightarrow> boundAt (fst st) closedSet ?nb ?t"
    unfolding relaxInv_def using i b by simp
  show ?thesis
  proof (cases "\<not> isPassable l ?nb \<or> ?nb \<in> set closedSet")
    case True
    then have "relaxP l e current closedSet d st = st" by (simp add: relaxP_def Let_def)
    moreover have "isPassable l ?nb \<longrightarrow> boundAt (fst st) closedSet ?nb ?t"
      using True by (auto simp: boundAt_def)
    ultimately show ?thesis using same by simp
  next
    case False
    then have pass: "isPassable l ?nb" and ncl: "?nb \<notin> set closedSet" by simp_all
    show ?thesis
    proof (cases "lessThanScore ?t (snd st ?nb)")
      case f: False
      then have eq: "relaxP l e current closedSet d st = st" by (simp add: relaxP_def Let_def)
      from f obtain k where k: "snd st ?nb = Some k" "k \<noteq> 0" "k \<le> ?t"
        by (auto simp: lessThanScore_def split: option.splits if_splits)
      from i(9) k(1) ncl obtain n where "n \<in> set (fst st)" "n_pos n = ?nb" "n_g n = k"
        unfolding scoreOk_def by blast
      then have "boundAt (fst st) closedSet ?nb ?t" using k(3) by (auto simp: boundAt_def)
      then show ?thesis using same eq by simp
    next
      case True
      have eq: "relaxP l e current closedSet d st = (?open', ?gs')"
        using False True by (simp add: relaxP_def Let_def)
      have f1: "?t < n_g n" if n: "n \<in> set (fst st)" "n_pos n = ?nb" for n
      proof -
        from i(1) n have g: "snd st ?nb = Some (n_g n)" by (auto simp: openOk_def)
        have "n_g n \<noteq> 0"
        proof
          assume "n_g n = 0"
          with g i(10) have "?nb = s" by simp
          with i(4) ncl show False by simp
        qed
        with True g show ?thesis by (simp add: lessThanScore_def)
      qed
      have f2: "set ?open' = {n \<in> set (fst st). n_pos n \<noteq> ?nb} \<union> {?new}"
        using set_removeFirst[OF i(2), of ?nb] by simp
      have f3: "distinct (map n_pos ?open')"
        using distinct_removeFirst[OF i(2), of ?nb] set_removeFirst[OF i(2), of ?nb] by auto
      have st: "step l (n_pos current) ?nb" using d pass by (simp add: step_def)
      have "reach l s (n_pos current) (n_g current)" using i(7) by (simp add: shortest_def)
      then have rn: "reach l s ?nb ?t" using st reach.reachS by fastforce
      have oo: "openOk l s e closedSet ?gs' ?open'"
        unfolding openOk_def f2 using i(1) rn ncl by (auto simp: openOk_def)
      have mono: "boundAt ?open' closedSet v b" if b: "boundAt (fst st) closedSet v b" for v b
      proof (cases "v \<in> set closedSet")
        case True then show ?thesis by (simp add: boundAt_def)
      next
        case False
        with b obtain n where n: "n \<in> set (fst st)" "n_pos n = v" "n_g n \<le> b"
          by (auto simp: boundAt_def)
        show ?thesis
        proof (cases "v = ?nb")
          case True
          with f1[of n] n have "?t \<le> b" by simp
          moreover have "?new \<in> set ?open'" by simp
          ultimately show ?thesis unfolding boundAt_def using True by (intro disjI2 bexI[of _ ?new]) simp_all
        next
          case False
          with n have "n \<in> set ?open'" unfolding f2 by simp
          with n show ?thesis unfolding boundAt_def by blast
        qed
      qed
      have co: "\<forall>u \<in> set closedSet. u \<noteq> n_pos current \<longrightarrow> closedOk l s ?open' closedSet u"
      proof (intro ballI impI)
        fix u assume "u \<in> set closedSet" "u \<noteq> n_pos current"
        with i(6) have "closedOk l s (fst st) closedSet u" by metis
        then show "closedOk l s ?open' closedSet u" unfolding closedOk_def using mono by blast
      qed
      have newb: "boundAt ?open' closedSet ?nb ?t"
        unfolding boundAt_def by (intro disjI2 bexI[of _ ?new]) simp_all
      have dn: "\<forall>d' \<in> insert d seen. isPassable l (neighbor (n_pos current) d')
            \<longrightarrow> boundAt ?open' closedSet (neighbor (n_pos current) d') ?t"
        using i(8) mono newb by auto
      have sc: "scoreOk ?open' closedSet ?gs'"
        unfolding scoreOk_def
      proof (intro allI impI)
        fix v k assume g: "?gs' v = Some k"
        show "v \<in> set closedSet \<or> (\<exists>n \<in> set ?open'. n_pos n = v \<and> n_g n = k)"
        proof (cases "v = ?nb")
          case True
          with g have "k = ?t" by simp
          then show ?thesis using True by (intro disjI2 bexI[of _ ?new]) simp_all
        next
          case False
          with g have "snd st v = Some k" by simp
          with i(9) have "v \<in> set closedSet \<or> (\<exists>n \<in> set (fst st). n_pos n = v \<and> n_g n = k)"
            unfolding scoreOk_def by blast
          then show ?thesis using False unfolding f2 by auto
        qed
      qed
      have z: "\<forall>v. ?gs' v = Some 0 \<longrightarrow> v = s" using i(10) by simp
      have "relaxInv l s e current closedSet (insert d seen) (?open', ?gs')"
        unfolding relaxInv_def fst_conv snd_conv
        using oo f3 i(3) i(4) i(5) co i(7) dn sc z by simp
      then show ?thesis using eq by simp
    qed
  qed
qed

lemma relax_fold:
  assumes "relaxInv l s e current closedSet seen st" and "set ds \<subseteq> set directions"
  shows "relaxInv l s e current closedSet (seen \<union> set ds) (fold (relaxP l e current closedSet) ds st)"
  using assms
proof (induction ds arbitrary: seen st)
  case Nil
  then show ?case by simp
next
  case (Cons d ds)
  from Cons.prems have d: "d \<in> set directions" and ds: "set ds \<subseteq> set directions" by simp_all
  from relax_step[OF Cons.prems(1) d]
  have "relaxInv l s e current closedSet (insert d seen) (relaxP l e current closedSet d st)" .
  from Cons.IH[OF this ds] show ?case by simp
qed


lemma pathLoop_correct:
  "searchInv l s e openSet closedSet gs \<Longrightarrow>
   (case pathLoop l e openSet closedSet gs of
      None \<Rightarrow> \<forall>n. \<not> reach l s e n
    | Some d \<Rightarrow> shortest l s e d)"
proof (induction l e openSet closedSet gs rule: pathLoop.induct)
  case (1 l e openSet closedSet gs)
  note inv = "1.prems"
  show ?case
  proof (cases "openSet = []")
    case True
    have "e \<notin> set closedSet" using searchInvD(3)[OF inv] .
    moreover have "reach l s e n \<Longrightarrow> e \<in> set closedSet" for n
      using closed_all_reachable[of l s e closedSet gs e n] inv True by simp
    ultimately have "\<forall>n. \<not> reach l s e n" by blast
    then show ?thesis using True by (simp add: pathLoop.simps)
  next
    case ne: False
    define current where "current = hd (sortOpenP e openSet)"
    define rest where "rest = tl (sortOpenP e openSet)"
    show ?thesis
    proof (cases "n_pos current = e")
      case True
      note i = searchInvD[OF inv]
      from sortOpenP_props[OF ne i(2), of e]
      have so: "set openSet = insert current (set rest)"
        and least: "\<forall>n \<in> set openSet. n_f current \<le> n_f n"
        unfolding current_def rest_def by blast+
      have cin: "current \<in> set openSet" using so by simp
      have "shortest l s (n_pos current) (n_g current)"
        using inv cin least by (rule pop_is_shortest)
      moreover have "pathLoop l e openSet closedSet gs = Some (n_g current)"
        using ne True by (subst pathLoop.simps) (simp add: Let_def current_def Vec_equals_iff)
      ultimately show ?thesis using True by simp
    next
      case False
      define closedSet' where "closedSet' = n_pos current # closedSet"
      define st where "st = fold (relaxP l e current closedSet') directions (rest, gs)"
      have r0: "relaxInv l s e current closedSet' {} (rest, gs)"
        unfolding closedSet'_def using inv ne current_def rest_def False by (rule relax_start)
      have "relaxInv l s e current closedSet' ({} \<union> set directions) st"
        unfolding st_def using r0 by (rule relax_fold) simp
      then have "relaxInv l s e current closedSet' (set directions) st" by simp
      then have inv': "searchInv l s e (fst st) closedSet' (snd st)" by (rule relax_end)
      have rec: "pathLoop l e openSet closedSet gs = pathLoop l e (fst st) closedSet' (snd st)"
        using ne False
        by (subst pathLoop.simps)
           (simp add: Let_def current_def rest_def closedSet'_def st_def Vec_equals_iff)
      have "case pathLoop l e (fst st) closedSet' (snd st) of
              None \<Rightarrow> \<forall>n. \<not> reach l s e n | Some d \<Rightarrow> shortest l s e d"
        using ne False inv'
        by (intro "1.IH"[of "sortOpenP e openSet" current rest closedSet' st])
           (simp_all add: current_def rest_def closedSet'_def st_def Vec_equals_iff)
      then show ?thesis using rec by simp
    qed
  qed
qed

lemma searchInv_init:
  "searchInv l s e [\<lparr> n_pos = s, n_g = 0, n_f = manhattanDistance s e \<rparr>] [] (Map.empty(s \<mapsto> 0))"
  unfolding searchInv_def openOk_def scoreOk_def
  by (auto intro: reach.reach0)

lemma getPathDistance_reach:
  "(case getPathDistance l s e of
      None \<Rightarrow> \<forall>n. \<not> reach l s e n
    | Some d \<Rightarrow> shortest l s e d)"
proof (cases "s = e")
  case True
  have "shortest l s s 0" by (simp add: shortest_def reach.reach0)
  then show ?thesis using True by (simp add: getPathDistance_def Vec_equals_iff)
next
  case False
  then have "\<not> Vec_equals s e" by (simp add: Vec_equals_iff)
  then have "getPathDistance l s e
      = pathLoop l e [\<lparr> n_pos = s, n_g = 0, n_f = manhattanDistance s e \<rparr>] [] (Map.empty(s \<mapsto> 0))"
    by (simp add: getPathDistance_def)
  with pathLoop_correct[OF searchInv_init, of l s e] show ?thesis by simp
qed


lemma adjacent_neighbor: "adjacent u v = (v \<in> neighbor u ` set directions)"
proof -
  obtain ux uy where u: "u = Vec ux uy" by (cases u)
  obtain wx wy where v: "v = Vec wx wy" by (cases v)
  show ?thesis unfolding u v adjacent_def manhattanDistance_def directions_def neighbor_def
    by auto
qed

lemma reach_floorPath:
  assumes a: "isPassable l a"
  shows "reach l a b n \<Longrightarrow> \<exists>cs. floorPath l a b cs \<and> length cs = Suc n"
proof (induction rule: reach.induct)
  case reach0
  have "floorPath l a a [a]" using a by (simp add: floorPath_def)
  then show ?case by (intro exI[of _ "[a]"]) simp
next
  case (reachS u n v)
  from reachS.IH obtain cs where cs: "floorPath l a u cs" "length cs = Suc n" by blast
  have adj: "adjacent u v" and pv: "isPassable l v"
    using reachS.hyps(2) by (simp_all add: step_def adjacent_neighbor)
  have "floorPath l a v (cs @ [v])"
    using cs(1) adj pv by (auto simp: floorPath_def successively_append_iff)
  then show ?case using cs(2) by (intro exI[of _ "cs @ [v]"]) simp
qed

lemma floorPath_reach: "floorPath l a b cs \<Longrightarrow> reach l a b (length cs - 1)"
proof (induction cs arbitrary: b rule: rev_induct)
  case Nil
  then show ?case by (simp add: floorPath_def)
next
  case (snoc v cs)
  show ?case
  proof (cases "cs = []")
    case True
    with snoc.prems have "a = b" by (auto simp: floorPath_def)
    then show ?thesis using True by (simp add: reach.reach0)
  next
    case False
    from snoc.prems False have p: "floorPath l a (last cs) cs" and adj: "adjacent (last cs) v"
        and pv: "isPassable l v" and bv: "b = v"
      by (auto simp: floorPath_def successively_append_iff)
    have "reach l a (last cs) (length cs - 1)" using p by (rule snoc.IH)
    moreover have "step l (last cs) v" using adj pv by (simp add: step_def adjacent_neighbor)
    ultimately have "reach l a v (Suc (length cs - 1))" by (rule reach.reachS)
    then show ?thesis using False bv by simp
  qed
qed

text \<open>
  C4 as stated fails for a start cell that is not Floor: the search never tests its start.
  In the level whose cell \<open>(0, 0)\<close> is a Wall, the distance from that Wall to its Floor
  neighbour is 1 and to itself 0, though no path through Floor cells begins there.
\<close>

theorem getPathDistance_from_wall_counterexample:
  "tileAt (level wallGuardGame) (Vec 0 0) = Some WALL
   \<and> \<not> isPassable (level wallGuardGame) (Vec 0 0)
   \<and> \<not> floorPath (level wallGuardGame) (Vec 0 0) (Vec 1 0) [Vec 0 0, Vec 1 0]
   \<and> getPathDistance (level wallGuardGame) (Vec 0 0) (Vec 1 0) = Some 1
   \<and> getPathDistance (level wallGuardGame) (Vec 0 0) (Vec 0 0) = Some 0"
  by code_simp

text \<open>
  C4, amended. For every Floor cell \<open>a\<close> and every cell \<open>b\<close> of a level whose rows all
  exist, \<open>getPathDistance(a, b)\<close> is the exact hop count of a shortest 4-directional path
  through Floor cells, guards and bombs ignored, and it is the unreachable result exactly
  when there is no such path.
\<close>

theorem getPathDistance_exact:
  assumes "level_ok l" and a: "isPassable l a"
  shows "(getPathDistance l a b = None) = (\<not> (\<exists>cs. floorPath l a b cs))
       \<and> (\<forall>d. (getPathDistance l a b = Some d)
              = ((\<exists>cs. floorPath l a b cs \<and> length cs = d + 1)
                 \<and> (\<forall>cs. floorPath l a b cs \<longrightarrow> d + 1 \<le> length cs)))"
proof -
  have len: "0 < length cs" if "floorPath l a b cs" for cs using that by (auto simp: floorPath_def)
  have low: "d + 1 \<le> length cs" if "shortest l a b d" "floorPath l a b cs" for d cs
  proof -
    from floorPath_reach[OF that(2)] that(1) have "d \<le> length cs - 1" by (simp add: shortest_def)
    with len[OF that(2)] show ?thesis by linarith
  qed
  show ?thesis
  proof (cases "getPathDistance l a b")
    case None
    with getPathDistance_reach[of l a b] have no: "\<forall>n. \<not> reach l a b n" by simp
    then have "\<not> (\<exists>cs. floorPath l a b cs)" using floorPath_reach by blast
    then show ?thesis using None by simp
  next
    case (Some d0)
    with getPathDistance_reach[of l a b] have sh: "shortest l a b d0" by simp
    then have "reach l a b d0" by (simp add: shortest_def)
    from reach_floorPath[OF a this] obtain cs0 where cs0: "floorPath l a b cs0" "length cs0 = d0 + 1"
      by auto
    have uniq: "d = d0" if p: "floorPath l a b cs" and n: "length cs = d + 1"
        and m: "\<forall>cs. floorPath l a b cs \<longrightarrow> d + 1 \<le> length cs" for d cs
    proof -
      have "d0 + 1 \<le> length cs" using sh p by (rule low)
      moreover have "d + 1 \<le> length cs0" using m cs0(1) by blast
      ultimately show ?thesis using n cs0(2) by linarith
    qed
    have ex: "\<exists>cs. floorPath l a b cs" using cs0(1) by blast
    have r: "(\<exists>cs. floorPath l a b cs \<and> length cs = d0 + 1)
                 \<and> (\<forall>cs. floorPath l a b cs \<longrightarrow> d0 + 1 \<le> length cs)"
      using cs0 low[OF sh] by blast
    have "(Some d0 = Some d)
              = ((\<exists>cs. floorPath l a b cs \<and> length cs = d + 1)
                 \<and> (\<forall>cs. floorPath l a b cs \<longrightarrow> d + 1 \<le> length cs))" for d
    proof (cases "d = d0")
      case True
      then show ?thesis using r by simp
    next
      case False
      then have "\<not> ((\<exists>cs. floorPath l a b cs \<and> length cs = d + 1)
                 \<and> (\<forall>cs. floorPath l a b cs \<longrightarrow> d + 1 \<le> length cs))"
        using uniq by blast
      then show ?thesis using False by simp
    qed
    then show ?thesis unfolding Some using ex by simp
  qed
qed

text \<open>
  Instances: along the open corridor the distance from end to end is 4, with a path of
  five cells; behind the Wall at \<open>x = 3\<close> the east end is unreachable.
\<close>

theorem getPathDistance_exact_witness:
  "level_ok (corridorLevel [FLOOR, FLOOR, FLOOR, FLOOR, FLOOR])
   \<and> isPassable (corridorLevel [FLOOR, FLOOR, FLOOR, FLOOR, FLOOR]) (Vec 0 0)
   \<and> getPathDistance (corridorLevel [FLOOR, FLOOR, FLOOR, FLOOR, FLOOR]) (Vec 0 0) (Vec 4 0) = Some 4
   \<and> (\<exists>cs. floorPath (corridorLevel [FLOOR, FLOOR, FLOOR, FLOOR, FLOOR]) (Vec 0 0) (Vec 4 0) cs
          \<and> length cs = 5)
   \<and> level_ok (corridorLevel [FLOOR, FLOOR, FLOOR, WALL, FLOOR])
   \<and> isPassable (corridorLevel [FLOOR, FLOOR, FLOOR, WALL, FLOOR]) (Vec 0 0)
   \<and> getPathDistance (corridorLevel [FLOOR, FLOOR, FLOOR, WALL, FLOOR]) (Vec 0 0) (Vec 4 0) = None
   \<and> \<not> (\<exists>cs. floorPath (corridorLevel [FLOOR, FLOOR, FLOOR, WALL, FLOOR]) (Vec 0 0) (Vec 4 0) cs)"
proof -
  let ?l = "corridorLevel [FLOOR, FLOOR, FLOOR, FLOOR, FLOOR]"
  let ?w = "corridorLevel [FLOOR, FLOOR, FLOOR, WALL, FLOOR]"
  have h1: "level_ok ?l" and h2: "level_ok ?w" by (simp_all add: level_ok_def corridorLevel_def)
  have p1: "isPassable ?l (Vec 0 0)" and p2: "isPassable ?w (Vec 0 0)" by code_simp+
  have d1: "getPathDistance ?l (Vec 0 0) (Vec 4 0) = Some 4" by code_simp
  have d2: "getPathDistance ?w (Vec 0 0) (Vec 4 0) = None" by code_simp
  from getPathDistance_exact[OF h1 p1, of "Vec 4 0"]
  have "(getPathDistance ?l (Vec 0 0) (Vec 4 0) = Some 4)
          = ((\<exists>cs. floorPath ?l (Vec 0 0) (Vec 4 0) cs \<and> length cs = 4 + 1)
             \<and> (\<forall>cs. floorPath ?l (Vec 0 0) (Vec 4 0) cs \<longrightarrow> 4 + 1 \<le> length cs))"
    by blast
  with d1 have e1: "\<exists>cs. floorPath ?l (Vec 0 0) (Vec 4 0) cs \<and> length cs = 5" by simp
  from getPathDistance_exact[OF h2 p2, of "Vec 4 0"] d2
  have e2: "\<not> (\<exists>cs. floorPath ?w (Vec 0 0) (Vec 4 0) cs)" by simp
  show ?thesis using h1 h2 p1 p2 d1 d2 e1 e2 by simp
qed

end
